theory Spec2Isabelle
  imports Complex_Main "HOL-Library.AList" "HOL-Library.Log_Nat"
begin

section \<open>The connection pool of httpcore: data model\<close>

text \<open>
  The development embeds \<^verbatim>\<open>httpcore/_async/connection_pool.py\<close>. Python objects with
  identity (connections) live in an explicit store indexed by an object identity; the
  pool's methods become functions that take the state and return the new one. A Python
  \<^verbatim>\<open>set\<close> of connections is a list: its order stands for the order in which the
  interpreter iterates the set, which Python leaves open, so every statement below is
  made for every order. The dictionary \<^verbatim>\<open>_connections\<close> is an association list in
  insertion order. Time stamps are Python floats, with their rounding and their NaN.
  Tasks interleaving at \<^verbatim>\<open>await\<close> points are not modelled: each method runs to
  completion.
\<close>

subsection \<open>Python floats\<close>

text \<open>
  A Python float is an IEEE 754 binary64 number: \<open>Finite m e\<close> is the number
  \<open>m * 2^e\<close>, beside the two infinities and NaN. The sign of zero is not kept; no
  comparison and no sum depends on it.
\<close>

datatype pyfloat = Finite int int | PInf | NInf | NaN

text \<open>\<open>m / 2^k\<close> rounded to the nearest integer, a tie going to the even one.\<close>

definition round_even :: "int \<Rightarrow> nat \<Rightarrow> int" where
  "round_even m k =
     (let q = m div 2 ^ k; r = m mod 2 ^ k
      in if 2 ^ k < 2 * r \<or> (2 * r = 2 ^ k \<and> odd q) then q + 1 else q)"

text \<open>
  The float nearest to \<open>m * 2^e\<close>: 53 bits are kept, no bit below \<open>2^-1074\<close>, and a
  result of \<open>2^1024\<close> or more is an infinity.
\<close>

definition fl :: "int \<Rightarrow> int \<Rightarrow> pyfloat" where
  "fl m e =
     (let k = nat (max (bitlen \<bar>m\<bar> - 53) (- 1074 - e));
          q = round_even m k;
          e' = e + int k
      in if 1024 < bitlen \<bar>q\<bar> + e' then (if 0 < m then PInf else NInf) else Finite q e')"

text \<open>The sum \<^verbatim>\<open>a + b\<close> of two floats.\<close>

fun fadd :: "pyfloat \<Rightarrow> pyfloat \<Rightarrow> pyfloat" where
  "fadd NaN b = NaN"
| "fadd a NaN = NaN"
| "fadd PInf NInf = NaN"
| "fadd NInf PInf = NaN"
| "fadd PInf b = PInf"
| "fadd a PInf = PInf"
| "fadd NInf b = NInf"
| "fadd a NInf = NInf"
| "fadd (Finite m1 e1) (Finite m2 e2) =
     fl (m1 * 2 ^ nat (e1 - min e1 e2) + m2 * 2 ^ nat (e2 - min e1 e2)) (min e1 e2)"

text \<open>The comparisons \<^verbatim>\<open>a < b\<close> and \<^verbatim>\<open>a <= b\<close>; both are false when one side is NaN.\<close>

fun float_lt :: "pyfloat \<Rightarrow> pyfloat \<Rightarrow> bool" where
  "float_lt NaN b = False"
| "float_lt a NaN = False"
| "float_lt PInf b = False"
| "float_lt a NInf = False"
| "float_lt NInf b = True"
| "float_lt a PInf = True"
| "float_lt (Finite m1 e1) (Finite m2 e2) =
     (m1 * 2 ^ nat (e1 - min e1 e2) < m2 * 2 ^ nat (e2 - min e1 e2))"

fun float_le :: "pyfloat \<Rightarrow> pyfloat \<Rightarrow> bool" where
  "float_le NaN b = False"
| "float_le a NaN = False"
| "float_le NInf b = True"
| "float_le a PInf = True"
| "float_le PInf b = False"
| "float_le a NInf = False"
| "float_le (Finite m1 e1) (Finite m2 e2) =
     (m1 * 2 ^ nat (e1 - min e1 e2) \<le> m2 * 2 ^ nat (e2 - min e1 e2))"

text \<open>The number a finite float stands for.\<close>

fun float_value :: "pyfloat \<Rightarrow> real option" where
  "float_value (Finite m e) =
     Some (if 0 \<le> e then of_int (m * 2 ^ nat e) else of_int m / 2 ^ nat (- e))"
| "float_value a = None"

subsection \<open>Connections and the pool\<close>

type_synonym bytes = string
type_synonym Origin = "bytes \<times> bytes \<times> int"
type_synonym URL = "bytes \<times> bytes \<times> int option \<times> bytes"
type_synonym Headers = "(bytes \<times> bytes) list"
type_synonym TimeoutDict = "string \<rightharpoonup> pyfloat option"

text \<open>Identity of a connection object.\<close>

type_synonym conn = nat

text \<open>
  Modelled from the spec: \<^verbatim>\<open>ConnectionState\<close> and \<^verbatim>\<open>NewConnectionRequired\<close> are imported
  from \<^verbatim>\<open>base.py\<close> and \<^verbatim>\<open>PoolTimeout\<close> from \<^verbatim>\<open>_exceptions.py\<close>, which are not part
  of the sources at hand. \<open>OtherException\<close> stands for any other subclass of
  \<^verbatim>\<open>Exception\<close>, and \<open>OtherBaseException\<close> for a class that derives from
  \<^verbatim>\<open>BaseException\<close> only, as \<^verbatim>\<open>asyncio.CancelledError\<close> and \<^verbatim>\<open>KeyboardInterrupt\<close> do.
\<close>

datatype ConnectionState = PENDING | ACTIVE | IDLE | READY | CLOSED

datatype error =
    PoolTimeout
  | NewConnectionRequired
  | AssertionError
  | OtherException string
  | OtherBaseException string

text \<open>\<^verbatim>\<open>isinstance(e, Exception)\<close>: what the clause \<^verbatim>\<open>except Exception\<close> catches.\<close>

fun is_exception :: "error \<Rightarrow> bool" where
  "is_exception (OtherBaseException name) = False"
| "is_exception e = True"

text \<open>
  Modelled from the spec: the attributes of \<^verbatim>\<open>AsyncHTTPConnection\<close> (\<^verbatim>\<open>connection.py\<close>)
  that the pool reads or writes. \<open>dropped\<close> is the answer of
  \<^verbatim>\<open>is_connection_dropped()\<close>.
\<close>

record AsyncHTTPConnection =
  origin :: Origin
  state :: ConnectionState
  is_http11 :: bool
  is_http2 :: bool
  expires_at :: "pyfloat option"
  dropped :: bool

text \<open>
  Modelled from the spec: \<open>Semaphore p\<close> is the backend's counting semaphore
  (\<^verbatim>\<open>_backends\<close>, not part of the sources at hand) with \<open>p\<close> permits left, created by
  \<^verbatim>\<open>create_semaphore(max_connections, exc_class=PoolTimeout)\<close>. \<open>NullSemaphore\<close> is the
  class of that name in the source.
\<close>

datatype semaphore = NullSemaphore | Semaphore int

text \<open>Calls the pool makes on its collaborators, in the order they are made.\<close>

datatype call =
    SemAcquire "pyfloat option"
  | SemRelease
  | MarkAsReady conn
  | ConnAClose conn
  | ConnRequest conn
  | StreamAClose conn
  | Callback conn

text \<open>
  The attributes of \<^verbatim>\<open>AsyncConnectionPool\<close> (\<open>internal_semaphore = None\<close> when the
  attribute does not exist yet), followed by the store of connection objects, the next
  free object identity and the log of calls. \<^verbatim>\<open>_ssl_context\<close> and \<^verbatim>\<open>_local_addr\<close>
  are only handed to new connections and are left out.
\<close>

record pool =
  max_connections :: "int option"
  max_keepalive :: "int option"
  keepalive_expiry :: "pyfloat option"
  http2 :: bool
  connections :: "(Origin \<times> conn list) list"
  next_keepalive_check :: pyfloat
  internal_semaphore :: "semaphore option"
  heap :: "conn \<Rightarrow> AsyncHTTPConnection"
  next_conn :: nat
  calls :: "call list"

text \<open>\<^verbatim>\<open>AsyncConnectionPool.__init__\<close>, on a store \<open>h\<close> holding \<open>n\<close> objects.\<close>

definition init :: "int option \<Rightarrow> int option \<Rightarrow> pyfloat option \<Rightarrow> bool \<Rightarrow>
    (conn \<Rightarrow> AsyncHTTPConnection) \<Rightarrow> nat \<Rightarrow> pool" where
  "init maxc maxk expiry h2 h n =
     \<lparr>max_connections = maxc, max_keepalive = maxk, keepalive_expiry = expiry, http2 = h2,
      connections = [], next_keepalive_check = Finite 0 0, internal_semaphore = None,
      heap = h, next_conn = n, calls = []\<rparr>"

section \<open>Semaphore and dictionary access\<close>

text \<open>The property \<^verbatim>\<open>_connection_semaphore\<close>: the semaphore is created on first use.\<close>

definition connection_semaphore :: "pool \<Rightarrow> semaphore \<times> pool" where
  "connection_semaphore s =
     (case internal_semaphore s of
        Some sem \<Rightarrow> (sem, s)
      | None \<Rightarrow>
          (let sem = (case max_connections s of Some m \<Rightarrow> Semaphore m | None \<Rightarrow> NullSemaphore)
           in (sem, s\<lparr>internal_semaphore := Some sem\<rparr>)))"

text \<open>
  Modelled from the spec: \<^verbatim>\<open>acquire(timeout)\<close> of the backend's semaphore hands out a
  permit when one is left; when none is left the call waits, and fails with the error it
  was created with (\<open>PoolTimeout\<close>) once the timeout has passed. With no timeout and no
  other task to release a permit the call never returns: the value \<open>None\<close>.
  \<open>NullSemaphore\<close>, as in the source, returns at once.
\<close>

fun sem_acquire :: "pyfloat option \<Rightarrow> semaphore \<Rightarrow> (error + semaphore) option" where
  "sem_acquire timeout NullSemaphore = Some (Inr NullSemaphore)"
| "sem_acquire timeout (Semaphore p) =
     (if 0 < p then Some (Inr (Semaphore (p - 1)))
      else (case timeout of None \<Rightarrow> None | Some t \<Rightarrow> Some (Inl PoolTimeout)))"

text \<open>
  Modelled from the spec: \<^verbatim>\<open>release()\<close> of the backend's semaphore gives one permit
  back. \<open>NullSemaphore\<close>, as in the source, does nothing.
\<close>

fun sem_release :: "semaphore \<Rightarrow> semaphore" where
  "sem_release NullSemaphore = NullSemaphore"
| "sem_release (Semaphore p) = Semaphore (p + 1)"

text \<open>\<^verbatim>\<open>self._connections.get(origin, set())\<close>\<close>

definition connections_get :: "pool \<Rightarrow> Origin \<Rightarrow> conn list" where
  "connections_get s orig = (case map_of (connections s) orig of None \<Rightarrow> [] | Some cs \<Rightarrow> cs)"

definition connections_for_origin :: "pool \<Rightarrow> Origin \<Rightarrow> conn list" where
  "connections_for_origin s orig = connections_get s orig"

text \<open>\<^verbatim>\<open>_get_all_connections\<close>: the union of the sets of all origins.\<close>

definition get_all_connections :: "pool \<Rightarrow> conn list" where
  "get_all_connections s = remdups (concat (map snd (connections s)))"

text \<open>\<open>set.add\<close> on the list that stands for a set.\<close>

definition set_add :: "conn \<Rightarrow> conn list \<Rightarrow> conn list" where
  "set_add c cs = (if c \<in> set cs then cs else cs @ [c])"

section \<open>Admission and eviction\<close>

text \<open>
  \<^verbatim>\<open>_add_to_pool\<close>. The result is \<open>None\<close> when the call never returns, and otherwise
  the error raised or \<open>()\<close>, with the state left behind.
\<close>

definition pool_timeout :: "TimeoutDict option \<Rightarrow> pyfloat option" where
  "pool_timeout timeout =
     (let t = (case timeout of None \<Rightarrow> Map.empty | Some t \<Rightarrow> t)
      in (case t ''pool'' of None \<Rightarrow> None | Some v \<Rightarrow> v))"

definition add_to_pool :: "conn \<Rightarrow> TimeoutDict option \<Rightarrow> pool \<Rightarrow> ((error + unit) \<times> pool) option" where
  "add_to_pool c timeout s =
     (let (sem, s1) = connection_semaphore s;
          s2 = s1\<lparr>calls := calls s1 @ [SemAcquire (pool_timeout timeout)]\<rparr>
      in (case sem_acquire (pool_timeout timeout) sem of
            None \<Rightarrow> None
          | Some (Inl e) \<Rightarrow> Some (Inl e, s2)
          | Some (Inr sem') \<Rightarrow>
              (let s3 = s2\<lparr>internal_semaphore := Some sem'\<rparr>;
                   orig = origin (heap s3 c);
                   d = (case map_of (connections s3) orig of
                          None \<Rightarrow> AList.update orig [] (connections s3)
                        | Some cs \<Rightarrow> connections s3);
                   d' = AList.update orig (set_add c (the (map_of d orig))) d
               in Some (Inr (), s3\<lparr>connections := d'\<rparr>))))"

text \<open>\<^verbatim>\<open>_remove_from_pool\<close>\<close>

definition remove_from_pool :: "conn \<Rightarrow> pool \<Rightarrow> pool" where
  "remove_from_pool c s =
     (let orig = origin (heap s c) in
      if c \<in> set (connections_get s orig) then
        (let (sem, s1) = connection_semaphore s;
             s2 = s1\<lparr>internal_semaphore := Some (sem_release sem),
                     calls := calls s1 @ [SemRelease]\<rparr>;
             cs = removeAll c (connections_get s2 orig);
             d = AList.update orig cs (connections s2);
             d' = (if cs = [] then AList.delete orig d else d)
         in s2\<lparr>connections := d'\<rparr>)
      else s)"

section \<open>Calls on a connection\<close>

text \<open>
  Modelled from the spec: \<^verbatim>\<open>mark_as_ready()\<close> of the connection (\<^verbatim>\<open>connection.py\<close>),
  which takes an \<open>IDLE\<close> connection to \<open>READY\<close>.
\<close>

definition mark_as_ready :: "conn \<Rightarrow> pool \<Rightarrow> pool" where
  "mark_as_ready c s =
     s\<lparr>heap := (heap s)(c := (heap s c)\<lparr>state :=
            (if state (heap s c) = IDLE then READY else state (heap s c))\<rparr>),
       calls := calls s @ [MarkAsReady c]\<rparr>"

text \<open>
  Modelled from the spec: \<^verbatim>\<open>aclose()\<close> of the connection (\<^verbatim>\<open>connection.py\<close>). The spec
  gives it no effect on the attributes the pool reads, so only the call is recorded.
\<close>

definition conn_aclose :: "conn \<Rightarrow> pool \<Rightarrow> pool" where
  "conn_aclose c s = s\<lparr>calls := calls s @ [ConnAClose c]\<rparr>"

text \<open>The assignment \<^verbatim>\<open>connection.expires_at = v\<close>.\<close>

definition set_expires_at :: "conn \<Rightarrow> pyfloat option \<Rightarrow> pool \<Rightarrow> pool" where
  "set_expires_at c v s = s\<lparr>heap := (heap s)(c := (heap s c)\<lparr>expires_at := v\<rparr>)\<rparr>"

section \<open>Selection\<close>

text \<open>The local variables of \<^verbatim>\<open>_get_connection_from_pool\<close>.\<close>

record scan =
  seen_http11 :: bool
  pending_connection :: "conn option"
  reuse_connection :: "conn option"
  connections_to_close :: "conn list"

definition scan0 :: scan where
  "scan0 = \<lparr>seen_http11 = False, pending_connection = None, reuse_connection = None,
            connections_to_close = []\<rparr>"

text \<open>One turn of the loop over the connections of the origin.\<close>

definition scan_step :: "conn \<Rightarrow> scan \<times> pool \<Rightarrow> scan \<times> pool" where
  "scan_step c ls =
     (let (l, s) = ls;
          l1 = (if is_http11 (heap s c) then l\<lparr>seen_http11 := True\<rparr> else l)
      in if state (heap s c) = IDLE then
           (if dropped (heap s c) then
              (l1\<lparr>connections_to_close := set_add c (connections_to_close l1)\<rparr>,
               remove_from_pool c s)
            else (l1\<lparr>reuse_connection := Some c\<rparr>, s))
         else if state (heap s c) = ACTIVE \<and> is_http2 (heap s c) then
           (l1\<lparr>reuse_connection := Some c\<rparr>, s)
         else if state (heap s c) = PENDING then
           (l1\<lparr>pending_connection := Some c\<rparr>, s)
         else (l1, s))"

text \<open>\<^verbatim>\<open>_get_connection_from_pool\<close>\<close>

definition get_connection_from_pool :: "Origin \<Rightarrow> pool \<Rightarrow> conn option \<times> pool" where
  "get_connection_from_pool orig s =
     (let (l, s1) = fold scan_step (connections_for_origin s orig) (scan0, s);
          (r, s2) =
            (case reuse_connection l of
               Some c \<Rightarrow> (Some c, set_expires_at c None (mark_as_ready c s1))
             | None \<Rightarrow>
                 if http2 s1 \<and> pending_connection l \<noteq> None \<and> \<not> seen_http11 l
                 then (pending_connection l, s1)
                 else (None, s1))
      in (r, fold conn_aclose (connections_to_close l) s2))"

section \<open>The stream-close callback, the keep-alive sweep, shutdown\<close>

text \<open>\<^verbatim>\<open>_response_closed\<close>; \<open>now\<close> is the answer of \<^verbatim>\<open>self._backend.time()\<close>.\<close>

definition response_closed :: "pyfloat \<Rightarrow> conn \<Rightarrow> pool \<Rightarrow> pool" where
  "response_closed now c s =
     (let (remove, close, s1) =
            (if state (heap s c) = CLOSED then (True, False, s)
             else if state (heap s c) = IDLE then
               (let num_connections = int (length (get_all_connections s)) in
                if (case max_keepalive s of None \<Rightarrow> False | Some k \<Rightarrow> num_connections > k)
                then (True, True, s)
                else (case keepalive_expiry s of
                        None \<Rightarrow> (False, False, s)
                      | Some e \<Rightarrow> (False, False, set_expires_at c (Some (fadd now e)) s)))
             else (False, False, s));
          s2 = (if remove then remove_from_pool c s1 else s1)
      in if close then conn_aclose c s2 else s2)"

text \<open>The test of the sweep on one connection; \<^verbatim>\<open>now > e\<close> is \<open>float_lt e now\<close>.\<close>

definition expired :: "pyfloat \<Rightarrow> AsyncHTTPConnection \<Rightarrow> bool" where
  "expired now x =
     (state x = IDLE \<and> (case expires_at x of None \<Rightarrow> False | Some e \<Rightarrow> float_lt e now))"

definition sweep_step :: "pyfloat \<Rightarrow> conn \<Rightarrow> conn list \<times> pool \<Rightarrow> conn list \<times> pool" where
  "sweep_step now c ts =
     (let (to_close, s) = ts
      in if expired now (heap s c) then (set_add c to_close, remove_from_pool c s)
         else (to_close, s))"

text \<open>
  \<^verbatim>\<open>_keepalive_sweep\<close>; the \<^verbatim>\<open>assert\<close> raises \<open>AssertionError\<close>, and \<open>Finite 1 0\<close> is
  the float \<^verbatim>\<open>1.0\<close>.
\<close>

definition keepalive_sweep :: "pyfloat \<Rightarrow> pool \<Rightarrow> (error + unit) \<times> pool" where
  "keepalive_sweep now s =
     (if keepalive_expiry s = None then (Inl AssertionError, s)
      else if float_lt now (next_keepalive_check s) then (Inr (), s)
      else
        (let s1 = s\<lparr>next_keepalive_check := fadd now (Finite 1 0)\<rparr>;
             (to_close, s2) = fold (sweep_step now) (get_all_connections s1) ([], s1)
         in (Inr (), fold conn_aclose to_close s2)))"

text \<open>\<^verbatim>\<open>aclose\<close> of the pool.\<close>

definition aclose :: "pool \<Rightarrow> pool" where
  "aclose s =
     (let cs = get_all_connections s;
          s1 = fold remove_from_pool cs s
      in fold conn_aclose cs s1)"

section \<open>The wrapper around the response stream\<close>

text \<open>
  Modelled from the spec: the body stream that a connection returns. Closing it lets the
  connection reclassify itself (\<open>close_state\<close> is its state afterwards) and may fail
  (\<open>close_error\<close>).
\<close>

record byte_stream =
  close_error :: "error option"
  close_state :: ConnectionState

definition stream_aclose :: "byte_stream \<Rightarrow> conn \<Rightarrow> pool \<Rightarrow> (error + unit) \<times> pool" where
  "stream_aclose b c s =
     ((case close_error b of None \<Rightarrow> Inr () | Some e \<Rightarrow> Inl e),
      s\<lparr>heap := (heap s)(c := (heap s c)\<lparr>state := close_state b\<rparr>),
        calls := calls s @ [StreamAClose c]\<rparr>)"

text \<open>
  Python's \<^verbatim>\<open>try: body finally: fin\<close>: \<open>fin\<close> runs whatever \<open>body\<close> did; an error of
  \<open>fin\<close> replaces the outcome of \<open>body\<close>, otherwise the outcome of \<open>body\<close> stands.
\<close>

definition try_finally :: "(pool \<Rightarrow> (error + 'a) \<times> pool) \<Rightarrow> (pool \<Rightarrow> (error + unit) \<times> pool) \<Rightarrow>
    pool \<Rightarrow> (error + 'a) \<times> pool" where
  "try_finally body fin s =
     (case body s of (r, s1) \<Rightarrow>
        (case fin s1 of (Inl e, s2) \<Rightarrow> (Inl e, s2) | (Inr u, s2) \<Rightarrow> (r, s2)))"

text \<open>
  \<^verbatim>\<open>ResponseByteStream\<close>. The callback receives the reading of the clock at the time it
  is called, and then the connection.
\<close>

record ResponseByteStream =
  stream :: byte_stream
  connection :: conn
  callback :: "pyfloat \<Rightarrow> conn \<Rightarrow> pool \<Rightarrow> (error + unit) \<times> pool"

definition ResponseByteStream_aclose :: "pyfloat \<Rightarrow> ResponseByteStream \<Rightarrow> pool \<Rightarrow> (error + unit) \<times> pool" where
  "ResponseByteStream_aclose now w s =
     try_finally
       (stream_aclose (stream w) (connection w))
       (\<lambda>s1. callback w now (connection w) (s1\<lparr>calls := calls s1 @ [Callback (connection w)]\<rparr>))
       s"

text \<open>\<^verbatim>\<open>self._response_closed\<close> as the callback that \<^verbatim>\<open>request\<close> hands to the wrapper.\<close>

definition response_closed_callback :: "pyfloat \<Rightarrow> conn \<Rightarrow> pool \<Rightarrow> (error + unit) \<times> pool" where
  "response_closed_callback now c s = (Inr (), response_closed now c s)"

section \<open>The request\<close>

type_synonym response = "bytes \<times> int \<times> bytes \<times> Headers \<times> byte_stream"

text \<open>
  Modelled from the spec: what one call of \<^verbatim>\<open>connection.request(...)\<close> does, as far as
  the pool can see it: it returns a response or raises, and it leaves the connection in a
  state of its own choosing.
\<close>

record reply =
  outcome :: "error + response"
  new_state :: ConnectionState
  new_http11 :: bool
  new_http2 :: bool

definition conn_request :: "conn \<Rightarrow> reply \<Rightarrow> pool \<Rightarrow> (error + response) \<times> pool" where
  "conn_request c r s =
     (outcome r,
      s\<lparr>heap := (heap s)(c := (heap s c)\<lparr>state := new_state r, is_http11 := new_http11 r,
                                         is_http2 := new_http2 r\<rparr>),
        calls := calls s @ [ConnRequest c]\<rparr>)"

text \<open>
  Modelled from the spec: the constructor \<^verbatim>\<open>AsyncHTTPConnection(origin=origin, ...)\<close>,
  which makes a new object in state \<open>PENDING\<close>.
\<close>

definition new_connection :: "Origin \<Rightarrow> pool \<Rightarrow> conn \<times> pool" where
  "new_connection orig s =
     (next_conn s,
      s\<lparr>heap := (heap s)(next_conn s :=
            \<lparr>origin = orig, state = PENDING, is_http11 = False, is_http2 = False,
             expires_at = None, dropped = False\<rparr>),
        next_conn := Suc (next_conn s)\<rparr>)"

text \<open>The block under \<^verbatim>\<open>self._connection_acquiry_lock\<close>: get or create a connection.\<close>

definition get_or_create :: "Origin \<Rightarrow> TimeoutDict option \<Rightarrow> pool \<Rightarrow> ((error + conn) \<times> pool) option" where
  "get_or_create orig timeout s =
     (case get_connection_from_pool orig s of
        (Some c, s1) \<Rightarrow> Some (Inr c, s1)
      | (None, s1) \<Rightarrow>
          (let (c, s2) = new_connection orig s1
           in (case add_to_pool c timeout s2 of
                 None \<Rightarrow> None
               | Some (Inl e, s3) \<Rightarrow> Some (Inl e, s3)
               | Some (Inr u, s3) \<Rightarrow> Some (Inr c, s3))))"

text \<open>
  The \<^verbatim>\<open>try\<close> statement around \<^verbatim>\<open>connection.request\<close>: \<open>Retry\<close> when the loop goes
  round again with \<^verbatim>\<open>connection = None\<close>, \<open>Done\<close> when the loop ends, \<open>Failed\<close> when
  an error leaves \<^verbatim>\<open>request\<close>. The clause \<^verbatim>\<open>except Exception\<close> removes the connection
  and raises again; an error that is no \<^verbatim>\<open>Exception\<close> passes both clauses.
\<close>

datatype attempt = Retry pool | Done response conn pool | Failed error pool

definition attempt_request :: "conn \<Rightarrow> reply \<Rightarrow> pool \<Rightarrow> attempt" where
  "attempt_request c r s =
     (case conn_request c r s of
        (Inr resp, s1) \<Rightarrow> Done resp c s1
      | (Inl e, s1) \<Rightarrow>
          if e = NewConnectionRequired then Retry s1
          else if is_exception e then Failed e (remove_from_pool c s1)
          else Failed e s1)"

text \<open>
  The loop \<^verbatim>\<open>while connection is None\<close>. Each turn takes the next reply of the
  connections from the list; the result is \<open>None\<close> when the loop does not end on the
  replies given, or when \<^verbatim>\<open>_add_to_pool\<close> never returns.
\<close>

fun request_loop :: "Origin \<Rightarrow> TimeoutDict option \<Rightarrow> reply list \<Rightarrow> pool \<Rightarrow>
    ((error + response \<times> conn) \<times> pool) option" where
  "request_loop orig timeout [] s =
     (case get_or_create orig timeout s of
        None \<Rightarrow> None
      | Some (Inl e, s1) \<Rightarrow> Some (Inl e, s1)
      | Some (Inr c, s1) \<Rightarrow> None)"
| "request_loop orig timeout (r # rs) s =
     (case get_or_create orig timeout s of
        None \<Rightarrow> None
      | Some (Inl e, s1) \<Rightarrow> Some (Inl e, s1)
      | Some (Inr c, s1) \<Rightarrow>
          (case attempt_request c r s1 of
             Retry s2 \<Rightarrow> request_loop orig timeout rs s2
           | Done resp c' s2 \<Rightarrow> Some (Inr (resp, c'), s2)
           | Failed e s2 \<Rightarrow> Some (Inl e, s2)))"

text \<open>
  \<^verbatim>\<open>request\<close>. \<^verbatim>\<open>url_to_origin\<close> (\<^verbatim>\<open>_utils.py\<close>) is not part of the sources at hand
  and is a parameter; \<open>now\<close> is the reading of the clock in the sweep. The method, the
  headers and the request body only travel to \<^verbatim>\<open>connection.request\<close>.
\<close>

definition request :: "(URL \<Rightarrow> Origin) \<Rightarrow> pyfloat \<Rightarrow> reply list \<Rightarrow> URL \<Rightarrow> TimeoutDict option \<Rightarrow> pool \<Rightarrow>
    ((error + bytes \<times> int \<times> bytes \<times> Headers \<times> ResponseByteStream) \<times> pool) option" where
  "request url_to_origin now replies url timeout s =
     (if fst url \<notin> {''http'', ''https''} then Some (Inl AssertionError, s)
      else
        (let orig = url_to_origin url;
             s1 = (if keepalive_expiry s \<noteq> None then snd (keepalive_sweep now s) else s)
         in (case request_loop orig timeout replies s1 of
               None \<Rightarrow> None
             | Some (Inl e, s2) \<Rightarrow> Some (Inl e, s2)
             | Some (Inr ((a, b, c, d, body), cn), s2) \<Rightarrow>
                 Some (Inr (a, b, c, d,
                            \<lparr>stream = body, connection = cn,
                             callback = response_closed_callback\<rparr>), s2))))"

section \<open>Example states\<close>

definition origin_x :: Origin where
  "origin_x = (''http'', ''x'', 80)"

definition blank :: AsyncHTTPConnection where
  "blank = \<lparr>origin = origin_x, state = PENDING, is_http11 = False, is_http2 = False,
            expires_at = None, dropped = False\<rparr>"

text \<open>A pool that allows two connections and holds one idle HTTP/1.1 connection.\<close>

definition pool_one :: pool where
  "pool_one =
     \<lparr>max_connections = Some 2, max_keepalive = None, keepalive_expiry = Some (Finite 5 0),
      http2 = True, connections = [(origin_x, [0])], next_keepalive_check = Finite 0 0,
      internal_semaphore = Some (Semaphore 1),
      heap = (\<lambda>i. blank)(0 := blank\<lparr>state := IDLE, is_http11 := True,
                                        expires_at := Some (Finite 5 0)\<rparr>),
      next_conn = 2, calls = []\<rparr>"

text \<open>A pool with HTTP/2 enabled that holds one pending connection.\<close>

definition pool_pending :: pool where
  "pool_pending =
     \<lparr>max_connections = Some 2, max_keepalive = None, keepalive_expiry = Some (Finite 5 0),
      http2 = True, connections = [(origin_x, [1])], next_keepalive_check = Finite 0 0,
      internal_semaphore = Some (Semaphore 1),
      heap = (\<lambda>i. blank), next_conn = 2, calls = []\<rparr>"

text \<open>A store of pending connections, and pools that start on it.\<close>

definition blank_heap :: "conn \<Rightarrow> AsyncHTTPConnection" where
  "blank_heap = (\<lambda>i. blank)"

definition pool_negative :: pool where
  "pool_negative = init (Some (- 1)) None None False blank_heap 0"

definition pool_new :: pool where
  "pool_new = init (Some 2) None (Some (Finite 5 0)) True blank_heap 1"

definition pool_added :: pool where
  "pool_added = snd (the (add_to_pool 0 None pool_new))"

text \<open>
  The connection of \<open>pool_added\<close> becomes idle on HTTP/1.1; then its stream is closed at
  time \<open>0\<close>, which sets \<^verbatim>\<open>expires_at\<close> to \<open>0 + 5\<close>.
\<close>

definition pool_idle :: pool where
  "pool_idle =
     response_closed (Finite 0 0) 0
       (pool_added\<lparr>heap := (heap pool_added)(0 := (heap pool_added 0)\<lparr>state := IDLE,
          is_http11 := True, is_http2 := False, dropped := False\<rparr>)\<rparr>)"

text \<open>
  A pool whose only permit is taken, and a timeout of 50 ms on the pool: the float
  \<^verbatim>\<open>0.05\<close> is \<open>3602879701896397 * 2^-56\<close>.
\<close>

definition pool_full :: pool where
  "pool_full = pool_one\<lparr>max_connections := Some 1, internal_semaphore := Some (Semaphore 0)\<rparr>"

definition timeout_50ms :: TimeoutDict where
  "timeout_50ms = [''pool'' \<mapsto> Some (Finite 3602879701896397 (- 56))]"

text \<open>
  A request for \<^verbatim>\<open>http://x/\<close> on the new pool. The connection answers with a response
  whose body stream will fail when it is closed.
\<close>

definition url_origin :: "URL \<Rightarrow> Origin" where
  "url_origin url =
     (case url of (scheme, host, port, path) \<Rightarrow>
        (scheme, host,
         (case port of None \<Rightarrow> (if scheme = ''https'' then 443 else 80) | Some p \<Rightarrow> p)))"

definition url_x :: URL where
  "url_x = (''http'', ''x'', None, ''/'')"

definition body_failing :: byte_stream where
  "body_failing = \<lparr>close_error = Some (OtherException ''reset''), close_state = IDLE\<rparr>"

definition reply_ok :: reply where
  "reply_ok = \<lparr>outcome = Inr (''HTTP/1.1'', 200, ''OK'', [], body_failing),
               new_state = ACTIVE, new_http11 = True, new_http2 = False\<rparr>"

definition reply_retry :: reply where
  "reply_retry = \<lparr>outcome = Inl NewConnectionRequired,
                  new_state = CLOSED, new_http11 = True, new_http2 = False\<rparr>"

definition reply_broken :: reply where
  "reply_broken = \<lparr>outcome = Inl (OtherException ''reset''),
                   new_state = CLOSED, new_http11 = True, new_http2 = False\<rparr>"

definition reply_cancelled :: reply where
  "reply_cancelled = \<lparr>outcome = Inl (OtherBaseException ''CancelledError''),
                      new_state = ACTIVE, new_http11 = True, new_http2 = False\<rparr>"

definition pool_requested :: pool where
  "pool_requested = snd (the (request url_origin (Finite 0 0) [reply_ok] url_x None pool_new))"

definition wrapped_body :: ResponseByteStream where
  "wrapped_body = \<lparr>stream = body_failing, connection = 1, callback = response_closed_callback\<rparr>"

text \<open>
  Two readings of the clock: the float \<^verbatim>\<open>3.049120329831768\<close>, and the float that
  Python gives for \<^verbatim>\<open>3.049120329831768 + 1.0\<close>, which is \<^verbatim>\<open>4.049120329831767\<close>.
\<close>

definition time_a :: pyfloat where
  "time_a = Finite 6866008590619077 (- 51)"

definition time_b :: pyfloat where
  "time_b = fadd time_a (Finite 1 0)"

text \<open>The idle connection of \<open>pool_idle\<close> has been selected for a request.\<close>

definition pool_selected :: pool where
  "pool_selected = snd (get_connection_from_pool origin_x pool_idle)"

section \<open>Reachable states and the invariant\<close>

text \<open>
  The states of a pool: it starts empty, on any store; then its methods are called, on
  connections that exist, while connections change their own attributes (never their
  origin) and new connections are made. Closing a stream that \<^verbatim>\<open>request\<close> returned is
  one of the steps, and so is any change of the order in which a set is iterated.
\<close>

text \<open>
  Two dictionaries with the same keys in the same order and, under each key, the same set
  of connections: the order within a set is the interpreter's choice.
\<close>

definition same_sets :: "(Origin \<times> conn list) list \<Rightarrow> (Origin \<times> conn list) list \<Rightarrow> bool" where
  "same_sets al bl =
     list_all2 (\<lambda>x y. fst x = fst y \<and> set (snd x) = set (snd y) \<and> distinct (snd x)) al bl"

inductive reachable :: "pool \<Rightarrow> bool" where
  init: "reachable (init maxc maxk expiry h2 h n)"
| request: "reachable s \<Longrightarrow> request u now rs url timeout s = Some (r, s') \<Longrightarrow> reachable s'"
| add_to_pool: "reachable s \<Longrightarrow> c < next_conn s \<Longrightarrow> add_to_pool c timeout s = Some (r, s') \<Longrightarrow>
    reachable s'"
| remove_from_pool: "reachable s \<Longrightarrow> reachable (remove_from_pool c s)"
| response_closed: "reachable s \<Longrightarrow> reachable (response_closed now c s)"
| keepalive_sweep: "reachable s \<Longrightarrow> reachable (snd (keepalive_sweep now s))"
| aclose: "reachable s \<Longrightarrow> reachable (aclose s)"
| stream_closed: "reachable s \<Longrightarrow>
    reachable (snd (ResponseByteStream_aclose now
      \<lparr>stream = b, connection = c, callback = response_closed_callback\<rparr> s))"
| connection_changed: "reachable s \<Longrightarrow>
    reachable (s\<lparr>heap := (heap s)(c := (heap s c)\<lparr>state := st, is_http11 := h11,
                                               is_http2 := h2, dropped := d\<rparr>)\<rparr>)"
| connection_created: "reachable s \<Longrightarrow> reachable (snd (new_connection orig s))"
| reordered: "reachable s \<Longrightarrow> same_sets al (connections s) \<Longrightarrow>
    reachable (s\<lparr>connections := al\<rparr>)"

text \<open>The connections in the pool, as a set.\<close>

definition pooled :: "pool \<Rightarrow> conn set" where
  "pooled s = set (get_all_connections s)"

text \<open>
  The permits left and the connections in the pool never add up to more than
  \<^verbatim>\<open>max_connections\<close>, and the permits left are not negative unless
  \<^verbatim>\<open>max_connections\<close> is.
\<close>

definition sem_inv :: "pool \<Rightarrow> bool" where
  "sem_inv s =
     (case internal_semaphore s of
        None \<Rightarrow> connections s = []
      | Some NullSemaphore \<Rightarrow> max_connections s = None
      | Some (Semaphore p) \<Rightarrow>
          (case max_connections s of
             None \<Rightarrow> False
           | Some m \<Rightarrow> int (length (get_all_connections s)) + p \<le> m \<and> (0 \<le> m \<longrightarrow> 0 \<le> p)))"

text \<open>
  The dictionary has each key once; each set is non-empty and holds existing connections
  under their own origin.
\<close>

definition pool_inv :: "pool \<Rightarrow> bool" where
  "pool_inv s =
     (distinct (map fst (connections s)) \<and>
      (\<forall>(orig, cs) \<in> set (connections s).
         cs \<noteq> [] \<and> distinct cs \<and> (\<forall>c \<in> set cs. origin (heap s c) = orig \<and> c < next_conn s)) \<and>
      sem_inv s)"

text \<open>A candidate for reuse: idle and not dropped, or active on HTTP/2.\<close>

definition reusable :: "AsyncHTTPConnection \<Rightarrow> bool" where
  "reusable x = (state x = IDLE \<and> \<not> dropped x \<or> state x = ACTIVE \<and> is_http2 x)"

section \<open>Facts about eviction\<close>

lemma connections_get_after_remove:
  "c \<notin> set (connections_get (remove_from_pool c s) (origin (heap s c)))"
  by (auto simp: remove_from_pool_def connections_get_def connection_semaphore_def Let_def
        update_conv' delete_conv' split: option.splits)

lemma heap_remove_from_pool [simp]: "heap (remove_from_pool c s) = heap s"
  by (auto simp: remove_from_pool_def connection_semaphore_def Let_def split: option.splits)

section \<open>The invariant holds in every reachable state\<close>

lemma set_concat_map_of:
  fixes al :: "('k \<times> 'a list) list"
  assumes "distinct (map fst al)"
  shows "set (concat (map snd al)) = {c. \<exists>k cs. map_of al k = Some cs \<and> c \<in> set cs}"
proof -
  have "\<And>k cs. (map_of al k = Some cs) = ((k, cs) \<in> set al)"
    using assms by simp
  then show ?thesis by auto blast
qed

lemma pooled_map_of:
  "distinct (map fst (connections s)) \<Longrightarrow>
   pooled s = {c. \<exists>orig cs. map_of (connections s) orig = Some cs \<and> c \<in> set cs}"
  unfolding pooled_def get_all_connections_def
  by (simp only: set_remdups set_concat_map_of)

lemma pool_inv_map_of:
  "pool_inv s \<Longrightarrow> map_of (connections s) orig = Some cs \<Longrightarrow>
   cs \<noteq> [] \<and> distinct cs \<and> (\<forall>c \<in> set cs. origin (heap s c) = orig \<and> c < next_conn s)"
  unfolding pool_inv_def by (auto dest!: map_of_SomeD)

lemma pool_inv_keys: "pool_inv s \<Longrightarrow> distinct (map fst (connections s))"
  by (simp add: pool_inv_def)

lemma pooled_iff:
  assumes "pool_inv s"
  shows "c \<in> pooled s \<longleftrightarrow> c \<in> set (connections_get s (origin (heap s c)))"
proof
  assume "c \<in> pooled s"
  then obtain orig cs where m: "map_of (connections s) orig = Some cs" and c: "c \<in> set cs"
    unfolding pooled_map_of [OF pool_inv_keys [OF assms]] by blast
  from pool_inv_map_of [OF assms m] c have "origin (heap s c) = orig" by simp
  with m c show "c \<in> set (connections_get s (origin (heap s c)))"
    by (simp add: connections_get_def)
next
  assume a: "c \<in> set (connections_get s (origin (heap s c)))"
  then obtain cs where "map_of (connections s) (origin (heap s c)) = Some cs" "c \<in> set cs"
    by (cases "map_of (connections s) (origin (heap s c))") (simp_all add: connections_get_def)
  then show "c \<in> pooled s"
    unfolding pooled_map_of [OF pool_inv_keys [OF assms]] by blast
qed

lemma length_all_card: "int (length (get_all_connections s)) = int (card (pooled s))"
  by (simp add: pooled_def get_all_connections_def length_remdups_card_conv)

lemma connections_get_connection_semaphore [simp]:
  "connections (snd (connection_semaphore s)) = connections s"
  "heap (snd (connection_semaphore s)) = heap s"
  "next_conn (snd (connection_semaphore s)) = next_conn s"
  "max_connections (snd (connection_semaphore s)) = max_connections s"
  "calls (snd (connection_semaphore s)) = calls s"
  by (simp_all add: connection_semaphore_def Let_def split: option.splits)

lemma remove_from_pool_absent:
  "c \<notin> set (connections_get s (origin (heap s c))) \<Longrightarrow> remove_from_pool c s = s"
  by (simp add: remove_from_pool_def)

lemma remove_from_pool_present:
  assumes "c \<in> set (connections_get s (origin (heap s c)))"
  shows "map_of (connections (remove_from_pool c s)) =
           (map_of (connections s))(origin (heap s c) :=
              (if removeAll c (connections_get s (origin (heap s c))) = [] then None
               else Some (removeAll c (connections_get s (origin (heap s c))))))"
    and "internal_semaphore (remove_from_pool c s) = Some (sem_release (fst (connection_semaphore s)))"
    and "calls (remove_from_pool c s) = calls s @ [SemRelease]"
  using assms
  by (simp_all add: remove_from_pool_def connections_get_def Let_def update_conv' delete_conv'
        split_beta)

lemma remove_from_pool_lookup:
  assumes "c \<in> set (connections_get s (origin (heap s c)))"
  shows "map_of (connections (remove_from_pool c s)) k =
           (if k = origin (heap s c) then
              (if removeAll c (connections_get s (origin (heap s c))) = [] then None
               else Some (removeAll c (connections_get s (origin (heap s c)))))
            else map_of (connections s) k)"
  by (simp add: remove_from_pool_present(1) [OF assms])

lemma remove_from_pool_fields [simp]:
  "next_conn (remove_from_pool c s) = next_conn s"
  "max_connections (remove_from_pool c s) = max_connections s"
  "max_keepalive (remove_from_pool c s) = max_keepalive s"
  "keepalive_expiry (remove_from_pool c s) = keepalive_expiry s"
  "http2 (remove_from_pool c s) = http2 s"
  "next_keepalive_check (remove_from_pool c s) = next_keepalive_check s"
  by (simp_all add: remove_from_pool_def connection_semaphore_def Let_def split_beta
        split: option.splits)

lemma remove_from_pool_keys:
  "distinct (map fst (connections s)) \<Longrightarrow> distinct (map fst (connections (remove_from_pool c s)))"
  by (simp add: remove_from_pool_def Let_def split_beta distinct_update distinct_delete)

lemma pool_invI:
  assumes "distinct (map fst (connections s))"
    and "\<And>orig cs. map_of (connections s) orig = Some cs \<Longrightarrow>
           cs \<noteq> [] \<and> distinct cs \<and> (\<forall>c \<in> set cs. origin (heap s c) = orig \<and> c < next_conn s)"
    and "sem_inv s"
  shows "pool_inv s"
  unfolding pool_inv_def
proof (intro conjI ballI)
  fix x assume x: "x \<in> set (connections s)"
  obtain orig cs where [simp]: "x = (orig, cs)" by (cases x)
  from x assms(1) have "map_of (connections s) orig = Some cs" by simp
  from assms(2) [OF this]
  show "case x of (orig, cs) \<Rightarrow>
          cs \<noteq> [] \<and> distinct cs \<and> (\<forall>c \<in> set cs. origin (heap s c) = orig \<and> c < next_conn s)"
    by simp
qed (use assms in simp_all)

lemma pooled_remove_from_pool:
  assumes inv: "pool_inv s"
  shows "pooled (remove_from_pool c s) = pooled s - {c}"
proof (cases "c \<in> set (connections_get s (origin (heap s c)))")
  case False
  then show ?thesis using pooled_iff [OF inv, of c] by (simp add: remove_from_pool_absent)
next
  case True
  let ?o = "origin (heap s c)"
  let ?s' = "remove_from_pool c s"
  from True have m: "map_of (connections s) ?o = Some (connections_get s ?o)"
    by (cases "map_of (connections s) ?o") (simp_all add: connections_get_def)
  have keys: "distinct (map fst (connections s))" by (rule pool_inv_keys [OF inv])
  note mo = remove_from_pool_lookup [OF True]
  show ?thesis
  proof (intro set_eqI iffI)
    fix x assume "x \<in> pooled ?s'"
    then obtain orig cs where a: "map_of (connections ?s') orig = Some cs" "x \<in> set cs"
      unfolding pooled_map_of [OF remove_from_pool_keys [OF keys]] by blast
    show "x \<in> pooled s - {c}"
    proof (cases "orig = ?o")
      case True
      with a mo [of ?o] have "x \<in> set (connections_get s ?o)" "x \<noteq> c"
        by (auto split: if_splits)
      with m show ?thesis unfolding pooled_map_of [OF keys] by blast
    next
      case False
      with a mo [of orig] have b: "map_of (connections s) orig = Some cs" by simp
      from pool_inv_map_of [OF inv b] a(2) False have "x \<noteq> c" by auto
      with a(2) b show ?thesis unfolding pooled_map_of [OF keys] by blast
    qed
  next
    fix x assume "x \<in> pooled s - {c}"
    then obtain orig cs where a: "map_of (connections s) orig = Some cs" "x \<in> set cs" "x \<noteq> c"
      unfolding pooled_map_of [OF keys] by blast
    show "x \<in> pooled ?s'"
    proof (cases "orig = ?o")
      case True
      with a m have "x \<in> set (removeAll c (connections_get s ?o))" by simp
      then have xin: "x \<in> set (removeAll c (connections_get s ?o))" .
      then have "removeAll c (connections_get s ?o) \<noteq> []"
        by (metis empty_iff list.set(1))
      then have "map_of (connections ?s') ?o = Some (removeAll c (connections_get s ?o))"
        using mo [of ?o] by simp
      with xin show ?thesis
        unfolding pooled_map_of [OF remove_from_pool_keys [OF keys]] by blast
    next
      case False
      with a mo [of orig] have "map_of (connections ?s') orig = Some cs" by simp
      with a(2) show ?thesis
        unfolding pooled_map_of [OF remove_from_pool_keys [OF keys]] by blast
    qed
  qed
qed

lemma pool_inv_remove_from_pool:
  assumes inv: "pool_inv s"
  shows "pool_inv (remove_from_pool c s)"
proof (cases "c \<in> set (connections_get s (origin (heap s c)))")
  case False
  then show ?thesis using inv by (simp add: remove_from_pool_absent)
next
  case True
  let ?o = "origin (heap s c)"
  let ?s' = "remove_from_pool c s"
  from True have m: "map_of (connections s) ?o = Some (connections_get s ?o)"
    by (cases "map_of (connections s) ?o") (simp_all add: connections_get_def)
  have keys: "distinct (map fst (connections s))" by (rule pool_inv_keys [OF inv])
  note mo = remove_from_pool_lookup [OF True]
  show ?thesis
  proof (rule pool_invI)
    show "distinct (map fst (connections ?s'))" by (rule remove_from_pool_keys [OF keys])
  next
    fix orig cs assume a: "map_of (connections ?s') orig = Some cs"
    show "cs \<noteq> [] \<and> distinct cs \<and> (\<forall>c \<in> set cs. origin (heap ?s' c) = orig \<and> c < next_conn ?s')"
    proof (cases "orig = ?o")
      case True
      with a mo [of ?o] have cs: "cs = removeAll c (connections_get s ?o)" "cs \<noteq> []"
        by (auto split: if_splits)
      from pool_inv_map_of [OF inv m] cs True show ?thesis
        by (auto simp: distinct_removeAll)
    next
      case False
      with a mo [of orig] have "map_of (connections s) orig = Some cs" by simp
      from pool_inv_map_of [OF inv this] show ?thesis by simp
    qed
  next
    have c: "c \<in> pooled s" using pooled_iff [OF inv] True by simp
    have fin: "finite (pooled s)" by (simp add: pooled_def)
    have card: "card (pooled s) = Suc (card (pooled s - {c}))"
      by (rule card.remove [OF fin c])
    from m have ne: "connections s \<noteq> []" by auto
    from inv have "sem_inv s" by (simp add: pool_inv_def)
    have sem: "internal_semaphore ?s' = Some (sem_release (fst (connection_semaphore s)))"
      by (rule remove_from_pool_present(2) [OF True])
    have len: "int (length (get_all_connections s)) = int (length (get_all_connections ?s')) + 1"
      unfolding length_all_card pooled_remove_from_pool [OF inv] using card by simp
    from \<open>sem_inv s\<close> ne show "sem_inv ?s'"
    proof (cases "internal_semaphore s")
      case None
      with \<open>sem_inv s\<close> ne show ?thesis by (simp add: sem_inv_def)
    next
      case (Some sem)
      then have f: "fst (connection_semaphore s) = sem" by (simp add: connection_semaphore_def)
      show ?thesis
      proof (cases sem)
        case NullSemaphore
        with Some \<open>sem_inv s\<close> show ?thesis by (simp add: sem_inv_def sem f)
      next
        case (Semaphore p)
        with Some \<open>sem_inv s\<close> len show ?thesis
          by (cases "max_connections s") (simp_all add: sem_inv_def sem f)
      qed
    qed
  qed
qed

lemma sem_acquire_Inl: "sem_acquire t sem = Some (Inl e) \<Longrightarrow> e = PoolTimeout"
  by (cases sem) (auto split: if_splits option.splits)

lemma add_to_pool_Inl:
  assumes "add_to_pool c t s = Some (Inl e, s')"
  shows "e = PoolTimeout"
    and "s' = (snd (connection_semaphore s))\<lparr>calls := calls s @ [SemAcquire (pool_timeout t)]\<rparr>"
    and "sem_acquire (pool_timeout t) (fst (connection_semaphore s)) = Some (Inl PoolTimeout)"
  using assms
  by (auto simp: add_to_pool_def Let_def split_beta dest: sem_acquire_Inl
        split: option.splits sum.splits)

lemma add_to_pool_Inr:
  assumes "add_to_pool c t s = Some (Inr u, s')"
  shows "\<exists>sem'. sem_acquire (pool_timeout t) (fst (connection_semaphore s)) = Some (Inr sem') \<and>
           internal_semaphore s' = Some sem'"
    and "map_of (connections s') k =
           (if k = origin (heap s c) then Some (set_add c (connections_get s (origin (heap s c))))
            else map_of (connections s) k)"
    and "calls s' = calls s @ [SemAcquire (pool_timeout t)]"
    and "heap s' = heap s" and "next_conn s' = next_conn s"
    and "max_connections s' = max_connections s"
    and "distinct (map fst (connections s)) \<Longrightarrow> distinct (map fst (connections s'))"
  using assms
  by (auto simp: add_to_pool_def Let_def split_beta update_conv' connections_get_def
        distinct_update split: option.splits sum.splits)

lemma set_set_add [simp]: "set (set_add c cs) = insert c (set cs)"
  by (auto simp: set_add_def)

lemma distinct_set_add [simp]: "distinct cs \<Longrightarrow> distinct (set_add c cs)"
  by (simp add: set_add_def)

lemma set_add_not_Nil [simp]: "set_add c cs \<noteq> []"
  by (simp add: set_add_def) auto

lemma set_connections_get:
  "set (connections_get s orig) = {c. \<exists>cs. map_of (connections s) orig = Some cs \<and> c \<in> set cs}"
  by (cases "map_of (connections s) orig") (auto simp: connections_get_def)

lemma pooled_add_to_pool:
  assumes inv: "pool_inv s" and add: "add_to_pool c t s = Some (Inr u, s')"
  shows "pooled s' = insert c (pooled s)"
proof -
  have keys: "distinct (map fst (connections s))" by (rule pool_inv_keys [OF inv])
  note keys' = add_to_pool_Inr(7) [OF add keys]
  note mo = add_to_pool_Inr(2) [OF add]
  show ?thesis
    unfolding pooled_map_of [OF keys] pooled_map_of [OF keys']
  proof (intro set_eqI iffI CollectI; elim CollectE exE conjE insertE)
    fix x orig cs
    assume "map_of (connections s') orig = Some cs" "x \<in> set cs"
    then show "x \<in> insert c {c. \<exists>orig cs. map_of (connections s) orig = Some cs \<and> c \<in> set cs}"
      by (cases "orig = origin (heap s c)")
        (auto simp: mo set_connections_get simp del: split_paired_All split_paired_Ex)
  next
    fix x assume "x = c"
    then have "map_of (connections s') (origin (heap s c)) =
                 Some (set_add c (connections_get s (origin (heap s c)))) \<and>
               x \<in> set (set_add c (connections_get s (origin (heap s c))))"
      by (simp add: mo)
    then show "\<exists>orig cs. map_of (connections s') orig = Some cs \<and> x \<in> set cs" by blast
  next
    fix x orig cs
    assume a: "map_of (connections s) orig = Some cs" "x \<in> set cs"
    then have "\<exists>cs'. map_of (connections s') orig = Some cs' \<and> x \<in> set cs'"
      by (cases "orig = origin (heap s c)") (auto simp: mo set_connections_get)
    then show "\<exists>orig cs. map_of (connections s') orig = Some cs \<and> x \<in> set cs" by blast
  qed
qed

lemma sem_inv_acquire:
  assumes "sem_inv s" and acq: "sem_acquire t (fst (connection_semaphore s)) = Some (Inr sem')"
    and sem: "internal_semaphore s' = Some sem'"
    and mc: "max_connections s' = max_connections s"
    and len: "int (length (get_all_connections s')) \<le> int (length (get_all_connections s)) + 1"
  shows "sem_inv s'"
proof (cases "internal_semaphore s")
  case None
  with assms(1) have "get_all_connections s = []"
    by (simp add: sem_inv_def get_all_connections_def)
  with None acq sem mc len show ?thesis
    by (auto simp: sem_inv_def connection_semaphore_def Let_def
          split: option.splits if_splits semaphore.splits)
next
  case (Some x)
  with assms show ?thesis
    by (cases x) (auto simp: sem_inv_def connection_semaphore_def Let_def
          split: option.splits if_splits semaphore.splits)
qed

lemma pool_inv_add_to_pool:
  assumes inv: "pool_inv s" and c: "c < next_conn s" and add: "add_to_pool c t s = Some (r, s')"
  shows "pool_inv s'"
proof (cases r)
  case (Inl e)
  with add have s': "s' = (snd (connection_semaphore s))\<lparr>calls := calls s @ [SemAcquire (pool_timeout t)]\<rparr>"
    and acq: "sem_acquire (pool_timeout t) (fst (connection_semaphore s)) = Some (Inl PoolTimeout)"
    using add_to_pool_Inl by blast+
  from inv have si: "sem_inv s" by (simp add: pool_inv_def)
  have "sem_inv s'"
  proof (cases "internal_semaphore s")
    case None
    with si acq show ?thesis
      by (auto simp: s' sem_inv_def connection_semaphore_def get_all_connections_def Let_def
            split: option.splits if_splits semaphore.splits)
  next
    case (Some x)
    with si show ?thesis
      by (auto simp: s' sem_inv_def connection_semaphore_def get_all_connections_def
            split: option.splits semaphore.splits)
  qed
  with inv show ?thesis by (simp add: pool_inv_def s')
next
  case (Inr u)
  with add have add': "add_to_pool c t s = Some (Inr u, s')" by simp
  note f = add_to_pool_Inr [OF add']
  have keys: "distinct (map fst (connections s))" by (rule pool_inv_keys [OF inv])
  show ?thesis
  proof (rule pool_invI)
    show "distinct (map fst (connections s'))" by (rule f(7) [OF keys])
  next
    fix orig cs assume a: "map_of (connections s') orig = Some cs"
    show "cs \<noteq> [] \<and> distinct cs \<and> (\<forall>c \<in> set cs. origin (heap s' c) = orig \<and> c < next_conn s')"
    proof (cases "orig = origin (heap s c)")
      case True
      with a f(2) [of orig] have cs: "cs = set_add c (connections_get s orig)" by simp
      have "distinct (connections_get s orig) \<and>
            (\<forall>x \<in> set (connections_get s orig). origin (heap s x) = orig \<and> x < next_conn s)"
        using pool_inv_map_of [OF inv, of orig]
        by (cases "map_of (connections s) orig") (simp_all add: connections_get_def)
      with c True show ?thesis by (simp add: cs f(4) f(5))
    next
      case False
      with a f(2) [of orig] have "map_of (connections s) orig = Some cs" by simp
      from pool_inv_map_of [OF inv this] show ?thesis by (simp add: f(4) f(5))
    qed
  next
    from inv have si: "sem_inv s" by (simp add: pool_inv_def)
    from f(1) obtain sem' where
      acq: "sem_acquire (pool_timeout t) (fst (connection_semaphore s)) = Some (Inr sem')"
      and sem: "internal_semaphore s' = Some sem'" by blast
    have "card (pooled s') \<le> Suc (card (pooled s))"
      unfolding pooled_add_to_pool [OF inv add']
      by (simp add: card_insert_if pooled_def)
    then have len: "int (length (get_all_connections s')) \<le> int (length (get_all_connections s)) + 1"
      unfolding length_all_card by simp
    show "sem_inv s'" by (rule sem_inv_acquire [OF si acq sem f(6) len])
  qed
qed

lemma pool_inv_cong:
  assumes "pool_inv s"
    and "connections s' = connections s"
    and "internal_semaphore s' = internal_semaphore s"
    and "max_connections s' = max_connections s"
    and "next_conn s \<le> next_conn s'"
    and "\<And>c. c < next_conn s \<Longrightarrow> origin (heap s' c) = origin (heap s c)"
  shows "pool_inv s'"
proof (rule pool_invI)
  show "distinct (map fst (connections s'))"
    using assms(1,2) by (simp add: pool_inv_def)
next
  fix orig cs assume "map_of (connections s') orig = Some cs"
  then have "map_of (connections s) orig = Some cs" by (simp add: assms(2))
  from pool_inv_map_of [OF assms(1) this] assms(5) assms(6)
  show "cs \<noteq> [] \<and> distinct cs \<and> (\<forall>c \<in> set cs. origin (heap s' c) = orig \<and> c < next_conn s')"
    by fastforce
next
  from assms(1) have "sem_inv s" by (simp add: pool_inv_def)
  then show "sem_inv s'"
    unfolding sem_inv_def get_all_connections_def assms(2,3,4) .
qed

lemma pool_inv_mark_as_ready: "pool_inv s \<Longrightarrow> pool_inv (mark_as_ready c s)"
  by (erule pool_inv_cong) (simp_all add: mark_as_ready_def)

lemma pool_inv_set_expires_at: "pool_inv s \<Longrightarrow> pool_inv (set_expires_at c v s)"
  by (erule pool_inv_cong) (simp_all add: set_expires_at_def)

lemma pool_inv_conn_aclose: "pool_inv s \<Longrightarrow> pool_inv (conn_aclose c s)"
  by (erule pool_inv_cong) (simp_all add: conn_aclose_def)

lemma pool_inv_conn_request: "pool_inv s \<Longrightarrow> pool_inv (snd (conn_request c r s))"
  by (erule pool_inv_cong) (simp_all add: conn_request_def)

lemma pool_inv_stream_aclose: "pool_inv s \<Longrightarrow> pool_inv (snd (stream_aclose b c s))"
  by (erule pool_inv_cong) (simp_all add: stream_aclose_def)

lemma pool_inv_new_connection: "pool_inv s \<Longrightarrow> pool_inv (snd (new_connection orig s))"
  by (erule pool_inv_cong) (simp_all add: new_connection_def)

lemma pool_inv_fold_conn_aclose: "pool_inv s \<Longrightarrow> pool_inv (fold conn_aclose cs s)"
  by (induction cs arbitrary: s) (simp_all add: pool_inv_conn_aclose)

lemma pool_inv_fold_remove: "pool_inv s \<Longrightarrow> pool_inv (fold remove_from_pool cs s)"
  by (induction cs arbitrary: s) (simp_all add: pool_inv_remove_from_pool)

lemma calls_remove_from_pool:
  "calls (remove_from_pool c s) = calls s \<or> calls (remove_from_pool c s) = calls s @ [SemRelease]"
  by (cases "c \<in> set (connections_get s (origin (heap s c)))")
    (simp_all add: remove_from_pool_absent remove_from_pool_present(3))

lemma count_calls_remove_from_pool:
  "k \<noteq> SemRelease \<Longrightarrow> count_list (calls (remove_from_pool c s)) k = count_list (calls s) k"
  using calls_remove_from_pool [of c s] by auto

lemma scan_step_facts:
  assumes "scan_step c (l, s) = (l', s')"
  shows "heap s' = heap s" and "http2 s' = http2 s" and "next_conn s' = next_conn s"
    and "s' = s \<or> s' = remove_from_pool c s"
    and "seen_http11 l' = (seen_http11 l \<or> is_http11 (heap s c))"
    and "reuse_connection l' = (if reusable (heap s c) then Some c else reuse_connection l)"
    and "pending_connection l' =
           (if state (heap s c) = PENDING then Some c else pending_connection l)"
    and "set (connections_to_close l') =
           (if state (heap s c) = IDLE \<and> dropped (heap s c)
            then insert c (set (connections_to_close l)) else set (connections_to_close l))"
  using assms
  by (auto simp: scan_step_def Let_def reusable_def split: if_splits)

lemma fold_scan_step:
  assumes "fold scan_step cs (l, s) = (l', s')"
  shows "heap s' = heap s \<and> http2 s' = http2 s \<and> next_conn s' = next_conn s \<and>
    (pool_inv s \<longrightarrow> pool_inv s') \<and>
    (\<forall>k. k \<noteq> SemRelease \<longrightarrow> count_list (calls s') k = count_list (calls s) k) \<and>
    seen_http11 l' = (seen_http11 l \<or> (\<exists>c \<in> set cs. is_http11 (heap s c))) \<and>
    (if \<exists>c \<in> set cs. reusable (heap s c)
     then \<exists>c \<in> set cs. reusable (heap s c) \<and> reuse_connection l' = Some c
     else reuse_connection l' = reuse_connection l) \<and>
    (if \<exists>c \<in> set cs. state (heap s c) = PENDING
     then \<exists>c \<in> set cs. state (heap s c) = PENDING \<and> pending_connection l' = Some c
     else pending_connection l' = pending_connection l) \<and>
    set (connections_to_close l') =
      set (connections_to_close l) \<union> {c \<in> set cs. state (heap s c) = IDLE \<and> dropped (heap s c)}"
  using assms
proof (induction cs arbitrary: l s)
  case Nil
  then show ?case by simp
next
  case (Cons c cs)
  obtain l1 s1 where st: "scan_step c (l, s) = (l1, s1)" by (cases "scan_step c (l, s)")
  with Cons.prems have f: "fold scan_step cs (l1, s1) = (l', s')" by simp
  note sf = scan_step_facts [OF st]
  note ih = Cons.IH [OF f, unfolded sf(1) sf(2) sf(3)]
  have inv: "pool_inv s \<longrightarrow> pool_inv s1"
    using sf(4) pool_inv_remove_from_pool by auto
  have cnt: "\<forall>k. k \<noteq> SemRelease \<longrightarrow> count_list (calls s1) k = count_list (calls s) k"
    using sf(4) count_calls_remove_from_pool by auto
  have 1: "heap s' = heap s \<and> http2 s' = http2 s \<and> next_conn s' = next_conn s"
    using ih by simp
  have 2: "pool_inv s \<longrightarrow> pool_inv s'"
    using ih inv by simp
  have 3: "\<forall>k. k \<noteq> SemRelease \<longrightarrow> count_list (calls s') k = count_list (calls s) k"
    using ih cnt by simp
  have 4: "seen_http11 l' = (seen_http11 l \<or> (\<exists>c \<in> set (c # cs). is_http11 (heap s c)))"
    using ih sf(5) by auto
  from ih have r: "if \<exists>c \<in> set cs. reusable (heap s c)
     then \<exists>c \<in> set cs. reusable (heap s c) \<and> reuse_connection l' = Some c
     else reuse_connection l' = reuse_connection l1" by blast
  have 5: "if \<exists>x \<in> set (c # cs). reusable (heap s x)
     then \<exists>x \<in> set (c # cs). reusable (heap s x) \<and> reuse_connection l' = Some x
     else reuse_connection l' = reuse_connection l"
  proof (cases "\<exists>c \<in> set cs. reusable (heap s c)")
    case True
    with r show ?thesis by auto
  next
    case False
    with r have "reuse_connection l' = reuse_connection l1" by simp
    with False sf(6) show ?thesis by auto
  qed
  from ih have p: "if \<exists>c \<in> set cs. state (heap s c) = PENDING
     then \<exists>c \<in> set cs. state (heap s c) = PENDING \<and> pending_connection l' = Some c
     else pending_connection l' = pending_connection l1" by blast
  have 6: "if \<exists>x \<in> set (c # cs). state (heap s x) = PENDING
     then \<exists>x \<in> set (c # cs). state (heap s x) = PENDING \<and> pending_connection l' = Some x
     else pending_connection l' = pending_connection l"
  proof (cases "\<exists>c \<in> set cs. state (heap s c) = PENDING")
    case True
    with p show ?thesis by auto
  next
    case False
    with p have "pending_connection l' = pending_connection l1" by simp
    with False sf(7) show ?thesis by auto
  qed
  from ih have "set (connections_to_close l') =
      set (connections_to_close l1) \<union> {c \<in> set cs. state (heap s c) = IDLE \<and> dropped (heap s c)}"
    by blast
  then have 7: "set (connections_to_close l') =
      set (connections_to_close l) \<union>
      {x \<in> set (c # cs). state (heap s x) = IDLE \<and> dropped (heap s x)}"
    unfolding sf(8) by auto
  from 1 2 3 4 5 6 7 show ?case by blast
qed

lemma fold_conn_aclose:
  "fold conn_aclose cs s = s\<lparr>calls := calls s @ map ConnAClose cs\<rparr>"
  by (induction cs arbitrary: s) (simp_all add: conn_aclose_def)

lemma count_list_map_ConnAClose [simp]: "count_list (map ConnAClose cs) (MarkAsReady c) = 0"
  by (induction cs) simp_all

lemma get_connection_from_pool_member:
  assumes "fst (get_connection_from_pool orig s) = Some c"
  shows "c \<in> set (connections_for_origin s orig)"
proof -
  let ?cs = "connections_for_origin s orig"
  obtain l s1 where f: "fold scan_step ?cs (scan0, s) = (l, s1)"
    by (cases "fold scan_step ?cs (scan0, s)")
  note ff = fold_scan_step [OF f]
  from ff have r: "reuse_connection l = Some c \<Longrightarrow> c \<in> set ?cs"
    by (auto simp: scan0_def split: if_splits)
  from ff have p: "pending_connection l = Some c \<Longrightarrow> c \<in> set ?cs"
    by (auto simp: scan0_def split: if_splits)
  from assms r p show ?thesis
    by (auto simp: get_connection_from_pool_def f split: option.splits if_splits)
qed

lemma get_connection_from_pool_inv:
  assumes inv: "pool_inv s"
  shows "pool_inv (snd (get_connection_from_pool orig s))"
    and "next_conn (snd (get_connection_from_pool orig s)) = next_conn s"
    and "fst (get_connection_from_pool orig s) = Some c \<Longrightarrow> c < next_conn s"
proof -
  let ?cs = "connections_for_origin s orig"
  obtain l s1 where f: "fold scan_step ?cs (scan0, s) = (l, s1)"
    by (cases "fold scan_step ?cs (scan0, s)")
  note ff = fold_scan_step [OF f]
  from ff inv have i1: "pool_inv s1" and n1: "next_conn s1 = next_conn s" by simp_all
  show "pool_inv (snd (get_connection_from_pool orig s))"
    using i1
    by (auto simp: get_connection_from_pool_def f pool_inv_fold_conn_aclose
          pool_inv_set_expires_at pool_inv_mark_as_ready split: option.splits)
  show "next_conn (snd (get_connection_from_pool orig s)) = next_conn s"
    using n1
    by (auto simp: get_connection_from_pool_def f fold_conn_aclose set_expires_at_def
          mark_as_ready_def split: option.splits)
  assume "fst (get_connection_from_pool orig s) = Some c"
  then have "c \<in> set (connections_get s orig)"
    using get_connection_from_pool_member by (simp add: connections_for_origin_def)
  then show "c < next_conn s"
    using pool_inv_map_of [OF inv, of orig]
    by (cases "map_of (connections s) orig") (auto simp: connections_get_def)
qed

lemma pool_inv_get_or_create:
  assumes inv: "pool_inv s" and g: "get_or_create orig timeout s = Some (r, s')"
  shows "pool_inv s' \<and> (\<forall>c. r = Inr c \<longrightarrow> c < next_conn s') \<and>
         (\<forall>e. r = Inl e \<longrightarrow> e = PoolTimeout)"
proof (cases "fst (get_connection_from_pool orig s)")
  case (Some c)
  with g have "r = Inr c" "s' = snd (get_connection_from_pool orig s)"
    by (auto simp: get_or_create_def split_beta)
  with get_connection_from_pool_inv(1,2) [OF inv, of orig]
    get_connection_from_pool_inv(3) [OF inv, of orig c] Some
  show ?thesis by simp
next
  case None
  let ?s1 = "snd (get_connection_from_pool orig s)"
  let ?c = "next_conn ?s1"
  let ?s2 = "snd (new_connection orig ?s1)"
  from None g obtain r2 where a: "add_to_pool ?c timeout ?s2 = Some (r2, s')"
    and r: "r = (case r2 of Inl e \<Rightarrow> Inl e | Inr u \<Rightarrow> Inr ?c)"
    by (auto simp: get_or_create_def split_beta new_connection_def
          split: option.splits sum.splits)
  have i2: "pool_inv ?s2"
    by (intro pool_inv_new_connection get_connection_from_pool_inv(1) inv)
  have lt: "?c < next_conn ?s2" by (simp add: new_connection_def)
  have "pool_inv s'" by (rule pool_inv_add_to_pool [OF i2 lt a])
  moreover have "\<forall>e. r2 = Inl e \<longrightarrow> e = PoolTimeout"
    using a add_to_pool_Inl(1) by blast
  moreover have "\<forall>u. r2 = Inr u \<longrightarrow> next_conn s' = next_conn ?s2"
    using a add_to_pool_Inr(5) by blast
  ultimately show ?thesis using r lt by (auto split: sum.splits)
qed

lemma pool_inv_attempt_request:
  assumes "pool_inv s"
  shows "case attempt_request c r s of
           Retry s' \<Rightarrow> pool_inv s'
         | Done resp c' s' \<Rightarrow> pool_inv s'
         | Failed e s' \<Rightarrow> pool_inv s' \<and> e \<noteq> NewConnectionRequired"
  using pool_inv_conn_request [OF assms, of c r]
  by (auto simp: attempt_request_def split_beta pool_inv_remove_from_pool split: sum.splits)

lemma pool_inv_request_loop:
  assumes "pool_inv s" and "request_loop orig timeout rs s = Some (r, s')"
  shows "pool_inv s' \<and> r \<noteq> Inl NewConnectionRequired"
  using assms
proof (induction rs arbitrary: s)
  case Nil
  then show ?case
    using pool_inv_get_or_create [of s orig timeout]
    by (auto split: option.splits sum.splits)
next
  case (Cons a rs)
  from Cons.prems obtain r1 s1 where g: "get_or_create orig timeout s = Some (r1, s1)"
    by (auto split: option.splits)
  note i1 = pool_inv_get_or_create [OF Cons.prems(1) g]
  show ?case
  proof (cases r1)
    case (Inl e)
    with Cons.prems(2) g i1 show ?thesis by auto
  next
    case (Inr c)
    note at = pool_inv_attempt_request [of s1 c a]
    show ?thesis
    proof (cases "attempt_request c a s1")
      case (Retry s2)
      with Cons.prems(2) g Inr have "request_loop orig timeout rs s2 = Some (r, s')" by simp
      moreover from at i1 Retry have "pool_inv s2" by simp
      ultimately show ?thesis by (rule Cons.IH [rotated])
    next
      case (Done resp c' s2)
      with Cons.prems(2) g Inr at i1 show ?thesis by auto
    next
      case (Failed e s2)
      with Cons.prems(2) g Inr at i1 show ?thesis by auto
    qed
  qed
qed

lemma pooled_fold_remove:
  "pool_inv s \<Longrightarrow> pooled (fold remove_from_pool cs s) = pooled s - set cs"
proof (induction cs arbitrary: s)
  case Nil
  then show ?case by simp
next
  case (Cons c cs)
  from Cons.IH [OF pool_inv_remove_from_pool [OF Cons.prems], of c]
  show ?case by (auto simp: pooled_remove_from_pool [OF Cons.prems])
qed

lemma pooled_empty:
  assumes "pool_inv s" and "pooled s = {}"
  shows "connections s = []"
proof (cases "connections s")
  case Nil
  then show ?thesis .
next
  case (Cons x xs)
  obtain orig cs where x: "x = (orig, cs)" by (cases x)
  with Cons assms(1) have "cs \<noteq> []" by (simp add: pool_inv_def)
  then obtain c where "c \<in> set cs" by (cases cs) auto
  with Cons x have "c \<in> pooled s" by (simp add: pooled_def get_all_connections_def)
  with assms(2) show ?thesis by simp
qed

lemma sweep_step_pair:
  "sweep_step now c (tc, s) =
     (if expired now (heap s c) then (set_add c tc, remove_from_pool c s) else (tc, s))"
  by (simp add: sweep_step_def)

lemma fold_sweep_step:
  assumes "pool_inv s" and "fold (sweep_step now) cs (tc, s) = (tc', s')"
  shows "pool_inv s' \<and> heap s' = heap s \<and>
         pooled s' = pooled s - {c \<in> set cs. expired now (heap s c)} \<and>
         next_keepalive_check s' = next_keepalive_check s \<and>
         keepalive_expiry s' = keepalive_expiry s"
  using assms
proof (induction cs arbitrary: tc s)
  case Nil
  then show ?case by simp
next
  case (Cons c cs)
  show ?case
  proof (cases "expired now (heap s c)")
    case True
    with Cons.prems(2)
    have f: "fold (sweep_step now) cs (set_add c tc, remove_from_pool c s) = (tc', s')"
      by (simp add: sweep_step_pair)
    from Cons.IH [OF pool_inv_remove_from_pool [OF Cons.prems(1)] f] True
    show ?thesis by (auto simp: pooled_remove_from_pool [OF Cons.prems(1)])
  next
    case False
    with Cons.prems(2) have f: "fold (sweep_step now) cs (tc, s) = (tc', s')"
      by (simp add: sweep_step_pair)
    from Cons.IH [OF Cons.prems(1) f] False show ?thesis by auto
  qed
qed

lemma pool_inv_keepalive_sweep: "pool_inv s \<Longrightarrow> pool_inv (snd (keepalive_sweep now s))"
proof -
  assume inv: "pool_inv s"
  let ?s1 = "s\<lparr>next_keepalive_check := fadd now (Finite 1 0)\<rparr>"
  have i1: "pool_inv ?s1" by (rule pool_inv_cong [OF inv]) simp_all
  obtain tc s2 where f: "fold (sweep_step now) (get_all_connections ?s1) ([], ?s1) = (tc, s2)"
    by (cases "fold (sweep_step now) (get_all_connections ?s1) ([], ?s1)")
  from fold_sweep_step [OF i1 f] have "pool_inv s2" by simp
  then have "pool_inv (fold conn_aclose tc s2)" by (rule pool_inv_fold_conn_aclose)
  with inv f show ?thesis by (simp add: keepalive_sweep_def)
qed

lemma pool_inv_response_closed: "pool_inv s \<Longrightarrow> pool_inv (response_closed now c s)"
  by (auto simp: response_closed_def Let_def pool_inv_remove_from_pool pool_inv_conn_aclose
        pool_inv_set_expires_at split: option.splits)

lemma pool_inv_aclose: "pool_inv s \<Longrightarrow> pool_inv (aclose s)"
  by (simp add: aclose_def Let_def pool_inv_fold_conn_aclose pool_inv_fold_remove)

lemma pool_inv_request:
  assumes "pool_inv s" and "request u now rs url timeout s = Some (r, s')"
  shows "pool_inv s'"
proof (cases "fst url \<notin> {''http'', ''https''}")
  case True
  with assms show ?thesis by (simp add: request_def)
next
  case False
  let ?s1 = "if keepalive_expiry s \<noteq> None then snd (keepalive_sweep now s) else s"
  have i1: "pool_inv ?s1" using assms(1) pool_inv_keepalive_sweep by simp
  from False assms(2) obtain r2 where "request_loop (u url) timeout rs ?s1 = Some (r2, s')"
    by (auto simp: request_def Let_def split: option.splits sum.splits prod.splits)
  from pool_inv_request_loop [OF i1 this] show ?thesis by simp
qed

lemma pool_inv_init: "pool_inv (init maxc maxk expiry h2 h n)"
  by (simp add: pool_inv_def sem_inv_def init_def)

lemma pool_inv_stream_closed:
  assumes "pool_inv s"
  shows "pool_inv (snd (ResponseByteStream_aclose now
           \<lparr>stream = b, connection = c, callback = response_closed_callback\<rparr> s))"
proof -
  let ?s1 = "snd (stream_aclose b c s)"
  have "pool_inv (?s1\<lparr>calls := calls ?s1 @ [Callback c]\<rparr>)"
    by (rule pool_inv_cong [OF pool_inv_stream_aclose [OF assms]]) simp_all
  then have "pool_inv (response_closed now c (?s1\<lparr>calls := calls ?s1 @ [Callback c]\<rparr>))"
    by (rule pool_inv_response_closed)
  then show ?thesis
    by (simp add: ResponseByteStream_aclose_def try_finally_def response_closed_callback_def
          split_beta)
qed

lemma list_all2_same_sets:
  fixes al bl :: "('k \<times> 'a list) list"
  assumes "list_all2 (\<lambda>x y. fst x = fst y \<and> set (snd x) = set (snd y) \<and> distinct (snd x)) al bl"
  shows "map fst al = map fst bl \<and>
         set (concat (map snd al)) = set (concat (map snd bl)) \<and>
         (\<forall>k cs. (k, cs) \<in> set al \<longrightarrow>
            distinct cs \<and> (\<exists>ds. (k, ds) \<in> set bl \<and> set cs = set ds))"
  using assms
proof (induction al bl rule: list_all2_induct)
  case Nil
  show ?case by simp
next
  case (Cons x xs y ys)
  obtain k cs where x: "x = (k, cs)" by (cases x)
  obtain k' ds where y: "y = (k', ds)" by (cases y)
  from Cons.hyps(1) x y have h: "k' = k" "set cs = set ds" "distinct cs" by simp_all
  from Cons.IH have 1: "map fst (x # xs) = map fst (y # ys)" by (simp add: x y h)
  from Cons.IH have 2: "set (concat (map snd (x # xs))) = set (concat (map snd (y # ys)))"
    by (simp add: x y h)
  have 3: "\<forall>j es. (j, es) \<in> set (x # xs) \<longrightarrow>
            distinct es \<and> (\<exists>fs. (j, fs) \<in> set (y # ys) \<and> set es = set fs)"
  proof (intro allI impI)
    fix j es assume "(j, es) \<in> set (x # xs)"
    then consider "j = k" "es = cs" | "(j, es) \<in> set xs" by (auto simp: x)
    then show "distinct es \<and> (\<exists>fs. (j, fs) \<in> set (y # ys) \<and> set es = set fs)"
    proof cases
      case 1
      then have "(j, ds) \<in> set (y # ys) \<and> set es = set ds" by (simp add: y h)
      with 1 h(3) show ?thesis by blast
    next
      case 2
      with Cons.IH obtain fs where "distinct es" "(j, fs) \<in> set ys" "set es = set fs" by blast
      then have "distinct es \<and> (j, fs) \<in> set (y # ys) \<and> set es = set fs" by simp
      then show ?thesis by blast
    qed
  qed
  from 1 2 3 show ?case by blast
qed

lemma same_sets_facts:
  assumes "same_sets al bl"
  shows "map fst al = map fst bl"
    and "set (concat (map snd al)) = set (concat (map snd bl))"
    and "\<And>k cs. (k, cs) \<in> set al \<Longrightarrow> distinct cs \<and> (\<exists>ds. (k, ds) \<in> set bl \<and> set cs = set ds)"
  using list_all2_same_sets [OF assms [unfolded same_sets_def]] by blast+

lemma pool_inv_reordered:
  assumes inv: "pool_inv s" and same: "same_sets al (connections s)"
  shows "pool_inv (s\<lparr>connections := al\<rparr>)"
proof -
  note f = same_sets_facts [OF same]
  have keys: "distinct (map fst al)" using inv by (simp add: f(1) pool_inv_def)
  have entries: "\<forall>(orig, cs) \<in> set al.
      cs \<noteq> [] \<and> distinct cs \<and> (\<forall>c \<in> set cs. origin (heap s c) = orig \<and> c < next_conn s)"
  proof (intro ballI, clarify)
    fix orig cs assume "(orig, cs) \<in> set al"
    from f(3) [OF this] obtain ds where d: "distinct cs" "(orig, ds) \<in> set (connections s)"
      "set cs = set ds" by blast
    from inv d(2) have "ds \<noteq> [] \<and> (\<forall>c \<in> set ds. origin (heap s c) = orig \<and> c < next_conn s)"
      unfolding pool_inv_def by fast
    with d(1,3) show "cs \<noteq> [] \<and> distinct cs \<and>
        (\<forall>c \<in> set cs. origin (heap s c) = orig \<and> c < next_conn s)"
      by (metis set_empty)
  qed
  have len: "length (get_all_connections (s\<lparr>connections := al\<rparr>)) = length (get_all_connections s)"
    using f(2) by (simp add: get_all_connections_def length_remdups_card_conv)
  have nil: "connections s = [] \<Longrightarrow> al = []"
    using f(1) by simp
  from inv have "sem_inv s" by (simp add: pool_inv_def)
  then have "sem_inv (s\<lparr>connections := al\<rparr>)"
    unfolding sem_inv_def len using nil
    by (auto split: option.splits semaphore.splits)
  with keys entries show ?thesis by (simp add: pool_inv_def)
qed

lemma reachable_pool_inv: "reachable s \<Longrightarrow> pool_inv s"
proof (induction rule: reachable.induct)
  case (init maxc maxk expiry h2 h n)
  show ?case by (rule pool_inv_init)
next
  case (request s u now rs url timeout r s')
  then show ?case using pool_inv_request by blast
next
  case (add_to_pool s c timeout r s')
  then show ?case using pool_inv_add_to_pool by blast
next
  case (remove_from_pool s c)
  then show ?case by (simp add: pool_inv_remove_from_pool)
next
  case (response_closed s now c)
  then show ?case by (simp add: pool_inv_response_closed)
next
  case (keepalive_sweep s now)
  then show ?case by (simp add: pool_inv_keepalive_sweep)
next
  case (aclose s)
  then show ?case by (simp add: pool_inv_aclose)
next
  case (stream_closed s now b c)
  then show ?case by (simp add: pool_inv_stream_closed)
next
  case (connection_changed s c st h11 h2 d)
  then show ?case by (elim pool_inv_cong) simp_all
next
  case (connection_created s orig)
  then show ?case by (simp add: pool_inv_new_connection)
next
  case (reordered s al)
  then show ?case by (simp add: pool_inv_reordered)
qed

section \<open>Selection returns a candidate\<close>

text \<open>
  C1: for every origin and every state, when the set of the origin holds a candidate for
  reuse (an idle connection that is not dropped, or an active HTTP/2 connection),
  \<^verbatim>\<open>_get_connection_from_pool\<close> returns one of these candidates, has called
  \<^verbatim>\<open>mark_as_ready()\<close> on it exactly once and has set its \<^verbatim>\<open>expires_at\<close> to
  \<^verbatim>\<open>None\<close>. When the set holds no candidate, it returns a pending connection of the set
  if HTTP/2 is enabled, the set holds a pending connection and no connection of the set
  has \<^verbatim>\<open>is_http11\<close>; in every other case it returns \<^verbatim>\<open>None\<close>.
\<close>

theorem get_connection_from_pool_selects:
  "((\<exists>c \<in> set (connections_for_origin s orig). reusable (heap s c)) \<longrightarrow>
      (\<exists>c \<in> set (connections_for_origin s orig).
         reusable (heap s c) \<and>
         fst (get_connection_from_pool orig s) = Some c \<and>
         expires_at (heap (snd (get_connection_from_pool orig s)) c) = None \<and>
         count_list (calls (snd (get_connection_from_pool orig s))) (MarkAsReady c) =
           Suc (count_list (calls s) (MarkAsReady c)))) \<and>
   (\<not> (\<exists>c \<in> set (connections_for_origin s orig). reusable (heap s c)) \<longrightarrow>
      (if http2 s \<and> (\<exists>c \<in> set (connections_for_origin s orig). state (heap s c) = PENDING) \<and>
          (\<forall>c \<in> set (connections_for_origin s orig). \<not> is_http11 (heap s c))
       then \<exists>c \<in> set (connections_for_origin s orig).
              state (heap s c) = PENDING \<and> fst (get_connection_from_pool orig s) = Some c
       else fst (get_connection_from_pool orig s) = None))"
proof -
  let ?cs = "connections_for_origin s orig"
  obtain l s1 where f: "fold scan_step ?cs (scan0, s) = (l, s1)"
    by (cases "fold scan_step ?cs (scan0, s)")
  note ff = fold_scan_step [OF f]
  have cnt: "\<And>c. count_list (calls s1) (MarkAsReady c) = count_list (calls s) (MarkAsReady c)"
    using ff by simp
  show ?thesis
  proof (cases "\<exists>c \<in> set ?cs. reusable (heap s c)")
    case True
    with ff obtain c where c: "c \<in> set ?cs" "reusable (heap s c)" "reuse_connection l = Some c"
      by auto
    have "fst (get_connection_from_pool orig s) = Some c"
      by (simp add: get_connection_from_pool_def f c(3))
    moreover have "expires_at (heap (snd (get_connection_from_pool orig s)) c) = None"
      by (simp add: get_connection_from_pool_def f c(3) fold_conn_aclose set_expires_at_def)
    moreover have "count_list (calls (snd (get_connection_from_pool orig s))) (MarkAsReady c) =
           Suc (count_list (calls s) (MarkAsReady c))"
      by (simp add: get_connection_from_pool_def f c(3) fold_conn_aclose set_expires_at_def
            mark_as_ready_def cnt)
    ultimately show ?thesis using True c by blast
  next
    case False
    with ff have r: "reuse_connection l = None" by (simp add: scan0_def)
    from ff have seen: "seen_http11 l = (\<exists>c \<in> set ?cs. is_http11 (heap s c))"
      by (simp add: scan0_def)
    from ff have h2: "http2 s1 = http2 s" by simp
    show ?thesis
    proof (cases "\<exists>c \<in> set ?cs. state (heap s c) = PENDING")
      case True
      with ff obtain c where c: "c \<in> set ?cs" "state (heap s c) = PENDING"
        "pending_connection l = Some c" by auto
      with False seen h2 show ?thesis
        by (auto simp: get_connection_from_pool_def f r)
    next
      case pf: False
      with ff have "pending_connection l = None" by (simp add: scan0_def)
      with False pf show ?thesis
        by (auto simp: get_connection_from_pool_def f r)
    qed
  qed
qed

theorem get_connection_from_pool_selects_witness:
  "(\<exists>c \<in> set (connections_for_origin pool_one origin_x). reusable (heap pool_one c)) \<and>
   fst (get_connection_from_pool origin_x pool_one) = Some 0 \<and>
   expires_at (heap (snd (get_connection_from_pool origin_x pool_one)) 0) = None \<and>
   count_list (calls (snd (get_connection_from_pool origin_x pool_one))) (MarkAsReady 0) = 1 \<and>
   \<not> (\<exists>c \<in> set (connections_for_origin pool_pending origin_x). reusable (heap pool_pending c)) \<and>
   fst (get_connection_from_pool origin_x pool_pending) = Some 1"
proof -
  have a: "connections_for_origin pool_one origin_x = [0]"
    "reusable (heap pool_one 0)" "calls pool_one = []"
    by (simp_all add: pool_one_def connections_for_origin_def connections_get_def reusable_def
          blank_def)
  have b: "connections_for_origin pool_pending origin_x = [Suc 0]"
    "\<not> reusable (heap pool_pending (Suc 0))" "state (heap pool_pending (Suc 0)) = PENDING"
    "\<not> is_http11 (heap pool_pending (Suc 0))" "http2 pool_pending"
    by (simp_all add: pool_pending_def connections_for_origin_def connections_get_def
          reusable_def blank_def)
  show ?thesis
    using get_connection_from_pool_selects [of pool_one origin_x]
      get_connection_from_pool_selects [of pool_pending origin_x]
    by (simp add: a b)
qed

section \<open>The bound on the number of connections\<close>

lemma add_to_pool_pool_new:
  "add_to_pool 0 None pool_new =
     Some (Inr (), pool_new\<lparr>connections := [(origin_x, [0])],
                            internal_semaphore := Some (Semaphore 1),
                            calls := [SemAcquire None]\<rparr>)"
  by (simp add: add_to_pool_def pool_new_def init_def connection_semaphore_def pool_timeout_def
        blank_heap_def blank_def set_add_def Let_def)

lemma reachable_pool_added: "reachable pool_added"
proof -
  have "reachable pool_new" unfolding pool_new_def by (rule reachable.init)
  moreover have "0 < next_conn pool_new" by (simp add: pool_new_def init_def)
  moreover have "add_to_pool 0 None pool_new = Some (Inr (), pool_added)"
    by (simp add: pool_added_def add_to_pool_pool_new)
  ultimately show ?thesis by (rule reachable.add_to_pool)
qed

lemma pool_added_fields:
  "connections pool_added = [(origin_x, [0])]" "max_connections pool_added = Some 2"
  unfolding pool_added_def add_to_pool_pool_new
  by (simp_all add: pool_new_def init_def)

text \<open>
  C2, as stated, fails: \<^verbatim>\<open>max_connections\<close> is any integer, and a new pool created with
  \<^verbatim>\<open>max_connections = -1\<close> holds no connection, which is more than \<open>-1\<close>.
\<close>

theorem connections_bounded_counterexample:
  "reachable pool_negative \<and> max_connections pool_negative = Some (- 1) \<and>
   \<not> int (length (get_all_connections pool_negative)) \<le> - 1"
proof -
  have "reachable pool_negative" unfolding pool_negative_def by (rule reachable.init)
  then show ?thesis by (simp add: pool_negative_def init_def get_all_connections_def)
qed

text \<open>
  C2, amended: when \<^verbatim>\<open>max_connections\<close> is set to a number that is not negative, in
  every state reachable by any sequence of pool operations the number of connections
  across all origins is at most \<^verbatim>\<open>max_connections\<close>.
\<close>

theorem connections_bounded:
  assumes "reachable s" and "max_connections s = Some m" and "0 \<le> m"
  shows "int (length (get_all_connections s)) \<le> m"
proof -
  from assms(1) have "sem_inv s" using reachable_pool_inv by (simp add: pool_inv_def)
  show ?thesis
  proof (cases "internal_semaphore s")
    case None
    with \<open>sem_inv s\<close> have "connections s = []" by (simp add: sem_inv_def)
    with assms(3) show ?thesis by (simp add: get_all_connections_def)
  next
    case (Some sem)
    with \<open>sem_inv s\<close> assms(2,3) show ?thesis
      by (cases sem) (simp_all add: sem_inv_def)
  qed
qed

theorem connections_bounded_witness:
  "reachable pool_added \<and> max_connections pool_added = Some 2 \<and> (0::int) \<le> 2 \<and>
   int (length (get_all_connections pool_added)) \<le> 2 \<and>
   length (get_all_connections pool_added) = 1"
proof -
  have "max_connections pool_added = Some 2" "(0::int) \<le> 2"
    by (simp_all add: pool_added_fields)
  with connections_bounded [OF reachable_pool_added this] reachable_pool_added
  show ?thesis by (simp add: get_all_connections_def pool_added_fields)
qed

section \<open>No origin is left with an empty set\<close>

text \<open>
  C10: in every state reachable by any sequence of pool operations, every origin that is a
  key of the connections dictionary maps to a set that is not empty. In any state,
  \<^verbatim>\<open>_add_to_pool\<close> leaves the connection in the set of its origin, and
  \<^verbatim>\<open>_remove_from_pool\<close> of a connection that is in the pool leaves no empty set under
  its origin.
\<close>

theorem no_empty_origin:
  assumes "reachable s"
  shows "(\<forall>(orig, cs) \<in> set (connections s). cs \<noteq> []) \<and>
         (\<forall>orig. map_of (connections s) orig \<noteq> Some []) \<and>
         (add_to_pool c timeout s0 = Some (Inr u, s0') \<longrightarrow>
            map_of (connections s0') (origin (heap s0 c)) =
              Some (set_add c (connections_get s0 (origin (heap s0 c)))) \<and>
            c \<in> set (set_add c (connections_get s0 (origin (heap s0 c))))) \<and>
         (c \<in> set (connections_get s0 (origin (heap s0 c))) \<longrightarrow>
            map_of (connections (remove_from_pool c s0)) (origin (heap s0 c)) \<noteq> Some [])"
proof -
  from assms have inv: "pool_inv s" by (rule reachable_pool_inv)
  then have 1: "\<forall>(orig, cs) \<in> set (connections s). cs \<noteq> []"
    unfolding pool_inv_def by fast
  have 2: "\<forall>orig. map_of (connections s) orig \<noteq> Some []"
    using pool_inv_map_of [OF inv] by blast
  have 3: "add_to_pool c timeout s0 = Some (Inr u, s0') \<longrightarrow>
            map_of (connections s0') (origin (heap s0 c)) =
              Some (set_add c (connections_get s0 (origin (heap s0 c)))) \<and>
            c \<in> set (set_add c (connections_get s0 (origin (heap s0 c))))"
    using add_to_pool_Inr(2) [of c timeout s0 u s0' "origin (heap s0 c)"] by simp
  have 4: "c \<in> set (connections_get s0 (origin (heap s0 c))) \<longrightarrow>
            map_of (connections (remove_from_pool c s0)) (origin (heap s0 c)) \<noteq> Some []"
    using remove_from_pool_lookup [of c s0 "origin (heap s0 c)"] by simp
  from 1 2 3 4 show ?thesis by blast
qed

theorem no_empty_origin_witness:
  "reachable pool_added \<and> connections pool_added = [(origin_x, [0])] \<and>
   map_of (connections pool_added) origin_x \<noteq> Some [] \<and>
   add_to_pool 0 None pool_new = Some (Inr (), pool_added) \<and>
   map_of (connections pool_added) (origin (heap pool_new 0)) = Some [0] \<and>
   0 \<in> set (connections_get pool_added (origin (heap pool_added 0))) \<and>
   map_of (connections (remove_from_pool 0 pool_added)) (origin (heap pool_added 0)) \<noteq> Some []"
proof -
  have a: "add_to_pool 0 None pool_new = Some (Inr (), pool_added)"
    by (simp add: pool_added_def add_to_pool_pool_new)
  have b: "0 \<in> set (connections_get pool_added (origin (heap pool_added 0)))"
    "origin (heap pool_new 0) = origin_x" "connections_get pool_new origin_x = []"
    unfolding pool_added_def add_to_pool_pool_new
    by (simp_all add: connections_get_def pool_new_def init_def blank_heap_def blank_def)
  from no_empty_origin [OF reachable_pool_added, of 0 None pool_new "()" pool_added]
    no_empty_origin [OF reachable_pool_added, of 0 _ pool_added] a b reachable_pool_added
  show ?thesis by (simp add: pool_added_fields set_add_def)
qed

section \<open>The keep-alive sweep\<close>

lemma float_lt_irrefl: "\<not> float_lt a a"
  by (cases a) simp_all

lemma float_not_lt_le: "a \<noteq> NaN \<Longrightarrow> b \<noteq> NaN \<Longrightarrow> \<not> float_lt a b \<Longrightarrow> float_le b a"
  by (cases a; cases b) (simp_all add: min.commute)

lemma fadd_0_5: "fadd (Finite 0 0) (Finite 5 0) = Finite 5 0"
  by code_simp

lemma fadd_0_1: "fadd (Finite 0 0) (Finite 1 0) = Finite 1 0"
  by code_simp

lemma fadd_5_1: "fadd (Finite 5 0) (Finite 1 0) = Finite 6 0"
  by code_simp

lemma fadd_10_1: "fadd (Finite 10 0) (Finite 1 0) = Finite 11 0"
  by code_simp

lemma time_b_eq: "time_b = Finite 4558904202152162 (- 50)"
  unfolding time_b_def time_a_def by code_simp

lemma fadd_time_b: "fadd time_b (Finite 1 0) = Finite 5684804108994786 (- 50)"
  unfolding time_b_eq by code_simp

lemma fold_sweep_step_fields:
  "fold (sweep_step now) cs (tc, s) = (tc', s') \<Longrightarrow>
   next_keepalive_check s' = next_keepalive_check s \<and> keepalive_expiry s' = keepalive_expiry s \<and>
   heap s' = heap s"
proof (induction cs arbitrary: tc s)
  case Nil
  then show ?case by simp
next
  case (Cons c cs)
  then show ?case
    by (cases "expired now (heap s c)") (fastforce simp: sweep_step_pair)+
qed

lemma keepalive_sweep_noop:
  "float_lt now (next_keepalive_check s) \<Longrightarrow> snd (keepalive_sweep now s) = s"
  by (simp add: keepalive_sweep_def)

lemma keepalive_sweep_scan:
  assumes "keepalive_expiry s \<noteq> None" and "\<not> float_lt now (next_keepalive_check s)"
  shows "fst (keepalive_sweep now s) = Inr ()"
    and "next_keepalive_check (snd (keepalive_sweep now s)) = fadd now (Finite 1 0)"
    and "keepalive_expiry (snd (keepalive_sweep now s)) = keepalive_expiry s"
    and "heap (snd (keepalive_sweep now s)) = heap s"
    and "\<exists>tc s2. fold (sweep_step now) (get_all_connections s)
                     ([], s\<lparr>next_keepalive_check := fadd now (Finite 1 0)\<rparr>) = (tc, s2) \<and>
                  connections (snd (keepalive_sweep now s)) = connections s2"
proof -
  let ?s1 = "s\<lparr>next_keepalive_check := fadd now (Finite 1 0)\<rparr>"
  obtain tc s2 where f: "fold (sweep_step now) (get_all_connections ?s1) ([], ?s1) = (tc, s2)"
    by (cases "fold (sweep_step now) (get_all_connections ?s1) ([], ?s1)")
  have k: "keepalive_sweep now s = (Inr (), fold conn_aclose tc s2)"
    using assms f by (simp add: keepalive_sweep_def)
  note ff = fold_sweep_step_fields [OF f]
  show "fst (keepalive_sweep now s) = Inr ()" by (simp add: k)
  show "next_keepalive_check (snd (keepalive_sweep now s)) = fadd now (Finite 1 0)"
    using ff by (simp add: k fold_conn_aclose)
  show "keepalive_expiry (snd (keepalive_sweep now s)) = keepalive_expiry s"
    using ff by (simp add: k fold_conn_aclose)
  show "heap (snd (keepalive_sweep now s)) = heap s"
    using ff by (simp add: k fold_conn_aclose)
  have "get_all_connections ?s1 = get_all_connections s" by (simp add: get_all_connections_def)
  with f show "\<exists>tc s2. fold (sweep_step now) (get_all_connections s) ([], ?s1) = (tc, s2) \<and>
                  connections (snd (keepalive_sweep now s)) = connections s2"
    by (simp add: k fold_conn_aclose)
qed

lemma pool_idle_eq:
  "pool_idle =
     \<lparr>max_connections = Some 2, max_keepalive = None, keepalive_expiry = Some (Finite 5 0),
      http2 = True, connections = [(origin_x, [0])], next_keepalive_check = Finite 0 0,
      internal_semaphore = Some (Semaphore 1),
      heap = blank_heap(0 := blank\<lparr>state := IDLE, is_http11 := True,
                                    expires_at := Some (Finite 5 0)\<rparr>),
      next_conn = 1, calls = [SemAcquire None]\<rparr>"
  unfolding pool_idle_def pool_added_def add_to_pool_pool_new
  by (simp add: response_closed_def pool_new_def init_def set_expires_at_def blank_heap_def
        blank_def get_all_connections_def fadd_0_5 del: fadd.simps)

lemma reachable_pool_idle: "reachable pool_idle"
  unfolding pool_idle_def
  by (intro reachable.response_closed reachable.connection_changed reachable_pool_added)

lemma pool_idle_fields:
  "keepalive_expiry pool_idle = Some (Finite 5 0)"
  "next_keepalive_check pool_idle = Finite 0 0"
  "get_all_connections pool_idle = [0]"
  "state (heap pool_idle 0) = IDLE"
  "expires_at (heap pool_idle 0) = Some (Finite 5 0)"
  by (simp_all add: pool_idle_eq get_all_connections_def blank_def)

lemma keepalive_sweep_pool_idle:
  "keepalive_sweep (Finite 5 0) pool_idle =
     (Inr (), pool_idle\<lparr>next_keepalive_check := Finite 6 0\<rparr>)"
  by (simp add: pool_idle_eq keepalive_sweep_def get_all_connections_def sweep_step_def
        expired_def blank_def fadd_5_1 Let_def del: fadd.simps)

text \<open>
  C5, as stated, fails at the boundary: the sweep removes a connection only when
  \<^verbatim>\<open>now > expires_at\<close>, so an idle connection with \<^verbatim>\<open>expires_at = now\<close> stays in the
  pool, and its \<^verbatim>\<open>expires_at\<close> is not greater than \<open>now\<close>. Here the connection went
  idle at time \<open>0\<close> with a keep-alive of \<open>5\<close>, and the sweep runs at time \<open>5\<close>.
\<close>

theorem keepalive_sweep_expiry_counterexample:
  "reachable pool_idle \<and> keepalive_expiry pool_idle = Some (Finite 5 0) \<and>
   \<not> float_lt (Finite 5 0) (next_keepalive_check pool_idle) \<and>
   0 \<in> set (get_all_connections (snd (keepalive_sweep (Finite 5 0) pool_idle))) \<and>
   state (heap (snd (keepalive_sweep (Finite 5 0) pool_idle)) 0) = IDLE \<and>
   expires_at (heap (snd (keepalive_sweep (Finite 5 0) pool_idle)) 0) = Some (Finite 5 0) \<and>
   \<not> float_lt (Finite 5 0) (Finite 5 0)"
proof -
  have "get_all_connections (pool_idle\<lparr>next_keepalive_check := Finite 6 0\<rparr>) = [0]"
    by (simp add: pool_idle_eq get_all_connections_def)
  with reachable_pool_idle show ?thesis
    by (simp add: keepalive_sweep_pool_idle pool_idle_fields)
qed

text \<open>
  C5, amended: when \<^verbatim>\<open>keepalive_expiry\<close> is set and the sweep runs its scan at time
  \<open>now\<close>, it removes from the pool exactly the connections that are idle, have
  \<^verbatim>\<open>expires_at\<close> set and have \<^verbatim>\<open>now > expires_at\<close>; afterwards every idle connection
  that remains in the pool has no \<^verbatim>\<open>expires_at\<close>, or an \<^verbatim>\<open>expires_at\<close> for which
  \<^verbatim>\<open>now > expires_at\<close> is false: that is \<^verbatim>\<open>expires_at >= now\<close>, unless one of the two
  floats is NaN.
\<close>

theorem keepalive_sweep_expiry:
  assumes "reachable s" and "keepalive_expiry s \<noteq> None"
    and "\<not> float_lt now (next_keepalive_check s)"
  shows "fst (keepalive_sweep now s) = Inr () \<and>
    set (get_all_connections (snd (keepalive_sweep now s))) =
      {c \<in> set (get_all_connections s). \<not> expired now (heap s c)} \<and>
    (\<forall>c \<in> set (get_all_connections (snd (keepalive_sweep now s))).
       state (heap (snd (keepalive_sweep now s)) c) = IDLE \<longrightarrow>
       (case expires_at (heap (snd (keepalive_sweep now s)) c) of
          None \<Rightarrow> True
        | Some e \<Rightarrow> \<not> float_lt e now \<and> (e \<noteq> NaN \<and> now \<noteq> NaN \<longrightarrow> float_le now e)))"
proof -
  let ?s1 = "s\<lparr>next_keepalive_check := fadd now (Finite 1 0)\<rparr>"
  let ?s' = "snd (keepalive_sweep now s)"
  have inv: "pool_inv s" by (rule reachable_pool_inv [OF assms(1)])
  have i1: "pool_inv ?s1" by (rule pool_inv_cong [OF inv]) simp_all
  have p1: "pooled ?s1 = pooled s" by (simp add: pooled_def get_all_connections_def)
  note k = keepalive_sweep_scan [OF assms(2,3)]
  from k(5) obtain tc s2 where
    f: "fold (sweep_step now) (get_all_connections s) ([], ?s1) = (tc, s2)"
    and c: "connections ?s' = connections s2" by blast
  from fold_sweep_step [OF i1 f]
  have "pooled s2 = pooled ?s1 - {c \<in> set (get_all_connections s). expired now (heap ?s1 c)}"
    by simp
  then have "pooled s2 = {c \<in> set (get_all_connections s). \<not> expired now (heap s c)}"
    unfolding p1 by (auto simp: pooled_def)
  moreover have "pooled ?s' = pooled s2" using c by (simp add: pooled_def get_all_connections_def)
  ultimately have rem: "set (get_all_connections ?s') =
      {c \<in> set (get_all_connections s). \<not> expired now (heap s c)}"
    by (simp add: pooled_def)
  have "\<forall>c \<in> set (get_all_connections ?s'). state (heap ?s' c) = IDLE \<longrightarrow>
       (case expires_at (heap ?s' c) of
          None \<Rightarrow> True
        | Some e \<Rightarrow> \<not> float_lt e now \<and> (e \<noteq> NaN \<and> now \<noteq> NaN \<longrightarrow> float_le now e))"
    unfolding rem k(4)
    by (auto simp: expired_def float_not_lt_le split: option.splits)
  with k(1) rem show ?thesis by blast
qed

theorem keepalive_sweep_expiry_witness:
  "reachable pool_idle \<and> keepalive_expiry pool_idle \<noteq> None \<and>
   \<not> float_lt (Finite 7 0) (next_keepalive_check pool_idle) \<and>
   expired (Finite 7 0) (heap pool_idle 0) \<and>
   get_all_connections pool_idle = [0] \<and>
   get_all_connections (snd (keepalive_sweep (Finite 7 0) pool_idle)) = [] \<and>
   \<not> float_lt (Finite 5 0) (next_keepalive_check pool_idle) \<and>
   set (get_all_connections (snd (keepalive_sweep (Finite 5 0) pool_idle))) = {0} \<and>
   float_le (Finite 5 0) (Finite 5 0)"
proof -
  have a: "keepalive_expiry pool_idle \<noteq> None"
    "\<not> float_lt (Finite 7 0) (next_keepalive_check pool_idle)"
    "expired (Finite 7 0) (heap pool_idle 0)" "get_all_connections pool_idle = [0]"
    by (simp_all add: pool_idle_fields expired_def)
  from keepalive_sweep_expiry [OF reachable_pool_idle a(1,2)]
  have "set (get_all_connections (snd (keepalive_sweep (Finite 7 0) pool_idle))) =
      {c \<in> set (get_all_connections pool_idle). \<not> expired (Finite 7 0) (heap pool_idle c)}"
    by blast
  also have "\<dots> = {}"
  proof -
    have "\<And>c. c \<in> set (get_all_connections pool_idle) \<Longrightarrow>
            expired (Finite 7 0) (heap pool_idle c)"
      unfolding a(4) using a(3) by simp
    then show ?thesis by blast
  qed
  finally have b: "get_all_connections (snd (keepalive_sweep (Finite 7 0) pool_idle)) = []"
    by simp
  have c: "\<not> float_lt (Finite 5 0) (next_keepalive_check pool_idle)"
    "\<not> expired (Finite 5 0) (heap pool_idle 0)"
    by (simp_all add: pool_idle_fields expired_def)
  note th = keepalive_sweep_expiry [OF reachable_pool_idle a(1) c(1)]
  from th
  have "set (get_all_connections (snd (keepalive_sweep (Finite 5 0) pool_idle))) =
      {c \<in> set (get_all_connections pool_idle). \<not> expired (Finite 5 0) (heap pool_idle c)}"
    by blast
  also have "\<dots> = {0}" unfolding a(4) using c(2) by auto
  finally have d: "set (get_all_connections (snd (keepalive_sweep (Finite 5 0) pool_idle))) = {0}" .
  from th d have "state (heap (snd (keepalive_sweep (Finite 5 0) pool_idle)) 0) = IDLE \<longrightarrow>
       (case expires_at (heap (snd (keepalive_sweep (Finite 5 0) pool_idle)) 0) of
          None \<Rightarrow> True
        | Some e \<Rightarrow> \<not> float_lt e (Finite 5 0) \<and>
                    (e \<noteq> NaN \<and> Finite 5 0 \<noteq> NaN \<longrightarrow> float_le (Finite 5 0) e))"
    by blast
  then have e: "float_le (Finite 5 0) (Finite 5 0)"
    by (simp add: keepalive_sweep_pool_idle pool_idle_fields)
  from a b c(1) d e reachable_pool_idle show ?thesis by simp
qed

text \<open>
  C9, as stated, fails: \<^verbatim>\<open>now + 1.0\<close> is a sum of floats, and it is rounded. A scan
  at the reading \<^verbatim>\<open>3.049120329831768\<close> sets \<^verbatim>\<open>_next_keepalive_check\<close> to
  \<^verbatim>\<open>4.049120329831767\<close>, which is less than one second later; a sweep at that reading
  is not stopped by the test \<^verbatim>\<open>now < self._next_keepalive_check\<close>, scans again and
  changes the state of the pool.
\<close>

theorem keepalive_sweep_rate_limit_counterexample:
  "keepalive_expiry pool_idle \<noteq> None \<and>
   \<not> float_lt time_a (next_keepalive_check pool_idle) \<and>
   next_keepalive_check (snd (keepalive_sweep time_a pool_idle)) = time_b \<and>
   0 < the (float_value time_b) - the (float_value time_a) \<and>
   the (float_value time_b) - the (float_value time_a) < 1 \<and>
   \<not> float_lt time_b (next_keepalive_check (snd (keepalive_sweep time_a pool_idle))) \<and>
   snd (keepalive_sweep time_b (snd (keepalive_sweep time_a pool_idle))) \<noteq>
     snd (keepalive_sweep time_a pool_idle)"
proof -
  let ?s1 = "snd (keepalive_sweep time_a pool_idle)"
  have a: "keepalive_expiry pool_idle \<noteq> None"
    "\<not> float_lt time_a (next_keepalive_check pool_idle)"
    by (simp_all add: pool_idle_fields time_a_def)
  note k1 = keepalive_sweep_scan [OF a]
  have n1: "next_keepalive_check ?s1 = time_b" by (simp add: k1(2) time_b_def)
  have b: "keepalive_expiry ?s1 \<noteq> None" "\<not> float_lt time_b (next_keepalive_check ?s1)"
    by (simp_all add: k1(3) a(1) n1 float_lt_irrefl)
  note k2 = keepalive_sweep_scan [OF b]
  have "next_keepalive_check (snd (keepalive_sweep time_b ?s1)) = fadd time_b (Finite 1 0)"
    by (rule k2(2))
  then have "next_keepalive_check (snd (keepalive_sweep time_b ?s1)) \<noteq> next_keepalive_check ?s1"
    unfolding n1 fadd_time_b by (simp add: time_b_eq)
  then have c: "snd (keepalive_sweep time_b ?s1) \<noteq> ?s1" by auto
  have d: "0 < the (float_value time_b) - the (float_value time_a)"
    "the (float_value time_b) - the (float_value time_a) < 1"
    unfolding time_b_eq time_a_def by simp_all
  from a n1 b(2) c d show ?thesis by blast
qed

text \<open>
  C9, amended: a sweep invoked at a time before \<^verbatim>\<open>_next_keepalive_check\<close> changes
  nothing; a sweep that runs its scan at time \<open>now\<close> sets \<^verbatim>\<open>_next_keepalive_check\<close> to
  the float \<^verbatim>\<open>now + 1.0\<close>; so after a scan at time \<open>now\<close>, a sweep at any reading below
  the float \<^verbatim>\<open>now + 1.0\<close> changes nothing.
\<close>

theorem keepalive_sweep_rate_limit:
  "(float_lt now (next_keepalive_check s) \<longrightarrow> snd (keepalive_sweep now s) = s) \<and>
   (keepalive_expiry s \<noteq> None \<and> float_lt now (next_keepalive_check s) \<longrightarrow>
      keepalive_sweep now s = (Inr (), s)) \<and>
   (keepalive_expiry s \<noteq> None \<and> \<not> float_lt now (next_keepalive_check s) \<longrightarrow>
      next_keepalive_check (snd (keepalive_sweep now s)) = fadd now (Finite 1 0)) \<and>
   (keepalive_expiry s \<noteq> None \<and> \<not> float_lt now (next_keepalive_check s) \<and>
    float_lt now' (fadd now (Finite 1 0)) \<longrightarrow>
      keepalive_sweep now' (snd (keepalive_sweep now s)) = (Inr (), snd (keepalive_sweep now s)))"
proof (intro conjI impI; (elim conjE)?)
  show "float_lt now (next_keepalive_check s) \<Longrightarrow> snd (keepalive_sweep now s) = s"
    by (rule keepalive_sweep_noop)
  show "keepalive_expiry s \<noteq> None \<Longrightarrow> float_lt now (next_keepalive_check s) \<Longrightarrow>
      keepalive_sweep now s = (Inr (), s)"
    by (simp add: keepalive_sweep_def)
  show "keepalive_expiry s \<noteq> None \<Longrightarrow> \<not> float_lt now (next_keepalive_check s) \<Longrightarrow>
      next_keepalive_check (snd (keepalive_sweep now s)) = fadd now (Finite 1 0)"
    by (rule keepalive_sweep_scan(2))
  assume a: "keepalive_expiry s \<noteq> None" "\<not> float_lt now (next_keepalive_check s)"
    "float_lt now' (fadd now (Finite 1 0))"
  note k = keepalive_sweep_scan [OF a(1,2)]
  from a(1,3) k(2) k(3)
  show "keepalive_sweep now' (snd (keepalive_sweep now s)) = (Inr (), snd (keepalive_sweep now s))"
    by (simp add: keepalive_sweep_def [of now'])
qed

theorem keepalive_sweep_rate_limit_witness:
  "keepalive_expiry pool_idle \<noteq> None \<and>
   \<not> float_lt (Finite 10 0) (next_keepalive_check pool_idle) \<and>
   next_keepalive_check (snd (keepalive_sweep (Finite 10 0) pool_idle)) = Finite 11 0 \<and>
   float_lt (Finite 21 (- 1)) (fadd (Finite 10 0) (Finite 1 0)) \<and>
   keepalive_sweep (Finite 21 (- 1)) (snd (keepalive_sweep (Finite 10 0) pool_idle)) =
     (Inr (), snd (keepalive_sweep (Finite 10 0) pool_idle)) \<and>
   float_lt (Finite 21 (- 1)) (next_keepalive_check (snd (keepalive_sweep (Finite 10 0) pool_idle))) \<and>
   snd (keepalive_sweep (Finite 21 (- 1)) (snd (keepalive_sweep (Finite 10 0) pool_idle))) =
     snd (keepalive_sweep (Finite 10 0) pool_idle)"
proof -
  let ?s1 = "snd (keepalive_sweep (Finite 10 0) pool_idle)"
  have a: "keepalive_expiry pool_idle \<noteq> None"
    "\<not> float_lt (Finite 10 0) (next_keepalive_check pool_idle)"
    by (simp_all add: pool_idle_fields)
  have b: "float_lt (Finite 21 (- 1)) (fadd (Finite 10 0) (Finite 1 0))"
    unfolding fadd_10_1 by simp
  from keepalive_sweep_rate_limit [of "Finite 10 0" pool_idle "Finite 21 (- 1)"] a b
  have c: "next_keepalive_check ?s1 = fadd (Finite 10 0) (Finite 1 0)"
    "keepalive_sweep (Finite 21 (- 1)) ?s1 = (Inr (), ?s1)"
    by blast+
  have e: "float_lt (Finite 21 (- 1)) (next_keepalive_check ?s1)"
    unfolding c(1) by (rule b)
  from keepalive_sweep_rate_limit [of "Finite 21 (- 1)" ?s1 NaN] e
  have d: "snd (keepalive_sweep (Finite 21 (- 1)) ?s1) = ?s1" by blast
  have f: "next_keepalive_check ?s1 = Finite 11 0" unfolding c(1) by (rule fadd_10_1)
  from a b c(2) d e f show ?thesis by blast
qed

section \<open>Shutdown\<close>

lemma calls_fold_remove:
  assumes "pool_inv s" and "distinct cs" and "set cs \<subseteq> pooled s"
  shows "calls (fold remove_from_pool cs s) = calls s @ replicate (length cs) SemRelease"
  using assms
proof (induction cs arbitrary: s)
  case Nil
  then show ?case by simp
next
  case (Cons c cs)
  from Cons.prems have "c \<in> pooled s" by simp
  then have pres: "c \<in> set (connections_get s (origin (heap s c)))"
    using pooled_iff [OF Cons.prems(1)] by simp
  have "set cs \<subseteq> pooled (remove_from_pool c s)"
    using Cons.prems by (auto simp: pooled_remove_from_pool)
  from Cons.IH [OF pool_inv_remove_from_pool [OF Cons.prems(1)] _ this] Cons.prems(2)
  have "calls (fold remove_from_pool cs (remove_from_pool c s)) =
          calls (remove_from_pool c s) @ replicate (length cs) SemRelease"
    by simp
  then show ?case
    by (simp add: remove_from_pool_present(3) [OF pres])
qed

text \<open>
  C7: after \<^verbatim>\<open>aclose()\<close> the connections dictionary is empty. It is already empty
  when the first loop has ended, that is, before \<^verbatim>\<open>aclose()\<close> is called on the first
  connection: the calls made are one release of a permit for each connection that was
  in the pool, and only then the \<^verbatim>\<open>aclose()\<close> of each of these connections.
\<close>

theorem aclose_empties_pool:
  assumes "reachable s"
  shows "connections (aclose s) = [] \<and>
    connections (fold remove_from_pool (get_all_connections s) s) = [] \<and>
    aclose s = fold conn_aclose (get_all_connections s)
                 (fold remove_from_pool (get_all_connections s) s) \<and>
    calls (aclose s) =
      calls s @ replicate (length (get_all_connections s)) SemRelease @
      map ConnAClose (get_all_connections s)"
proof -
  let ?cs = "get_all_connections s"
  let ?s1 = "fold remove_from_pool ?cs s"
  have inv: "pool_inv s" by (rule reachable_pool_inv [OF assms])
  have "pooled ?s1 = {}"
    unfolding pooled_fold_remove [OF inv] by (simp add: pooled_def)
  with pool_inv_fold_remove [OF inv] have e: "connections ?s1 = []" by (rule pooled_empty)
  have a: "aclose s = fold conn_aclose ?cs ?s1" by (simp add: aclose_def Let_def)
  have "distinct ?cs" "set ?cs \<subseteq> pooled s"
    by (simp_all add: get_all_connections_def pooled_def)
  from calls_fold_remove [OF inv this]
  have c: "calls ?s1 = calls s @ replicate (length ?cs) SemRelease" .
  from e a c show ?thesis by (simp add: fold_conn_aclose)
qed

theorem aclose_empties_pool_witness:
  "reachable pool_idle \<and> connections pool_idle = [(origin_x, [0])] \<and>
   connections (aclose pool_idle) = [] \<and>
   calls (aclose pool_idle) = [SemAcquire None, SemRelease, ConnAClose 0]"
proof -
  have g: "get_all_connections pool_idle = [0]" "calls pool_idle = [SemAcquire None]"
    "connections pool_idle = [(origin_x, [0])]"
    by (simp_all add: pool_idle_eq get_all_connections_def)
  from aclose_empties_pool [OF reachable_pool_idle]
  have "connections (aclose pool_idle) = []"
    "calls (aclose pool_idle) =
       calls pool_idle @ replicate (length (get_all_connections pool_idle)) SemRelease @
       map ConnAClose (get_all_connections pool_idle)"
    by blast+
  with g reachable_pool_idle show ?thesis by simp
qed

section \<open>Admission\<close>

lemma add_to_pool_granted:
  assumes "sem_acquire (pool_timeout timeout) (fst (connection_semaphore s)) = Some (Inr sem1)"
  shows "\<exists>s''. add_to_pool c timeout s = Some (Inr (), s'') \<and>
             internal_semaphore s'' = Some sem1 \<and>
             c \<in> set (connections_get s'' (origin (heap s c))) \<and>
             map_of (connections s'') (origin (heap s c)) =
               Some (set_add c (connections_get s (origin (heap s c))))"
proof -
  from assms obtain s'' where a: "add_to_pool c timeout s = Some (Inr (), s'')"
    by (auto simp: add_to_pool_def split_beta Let_def)
  note f = add_to_pool_Inr [OF a]
  from f(1) assms have "internal_semaphore s'' = Some sem1" by auto
  moreover have "c \<in> set (connections_get s'' (origin (heap s c)))"
    by (simp add: connections_get_def f(2))
  moreover have "map_of (connections s'') (origin (heap s c)) =
               Some (set_add c (connections_get s (origin (heap s c))))"
    by (simp add: f(2))
  ultimately show ?thesis using a by blast
qed

text \<open>
  C4: \<^verbatim>\<open>_add_to_pool\<close> asks the semaphore for a permit with the timeout found under
  the key \<open>pool\<close> of the timeout mapping. When that times out, \<^verbatim>\<open>_add_to_pool\<close>
  fails with \<open>PoolTimeout\<close>, which is its only error, and the connections dictionary is
  as before. When the permit is granted, \<^verbatim>\<open>_add_to_pool\<close> returns, the permit is taken
  and the connection is in the set of its origin, which is created if it was absent.
  \<^verbatim>\<open>_add_to_pool\<close> fails to return only when the semaphore never answers.
\<close>

theorem add_to_pool_admission:
  "(add_to_pool c timeout s = Some (Inl e, s') \<longrightarrow>
      e = PoolTimeout \<and> connections s' = connections s \<and>
      sem_acquire (pool_timeout timeout) (fst (connection_semaphore s)) = Some (Inl PoolTimeout) \<and>
      calls s' = calls s @ [SemAcquire (pool_timeout timeout)]) \<and>
   (sem_acquire (pool_timeout timeout) (fst (connection_semaphore s)) = Some (Inl PoolTimeout) \<longrightarrow>
      (\<exists>s''. add_to_pool c timeout s = Some (Inl PoolTimeout, s'') \<and>
             connections s'' = connections s)) \<and>
   (add_to_pool c timeout s = Some (Inr u, s') \<longrightarrow>
      (\<exists>sem'. sem_acquire (pool_timeout timeout) (fst (connection_semaphore s)) = Some (Inr sem') \<and>
              internal_semaphore s' = Some sem') \<and>
      c \<in> set (connections_get s' (origin (heap s c))) \<and>
      (\<forall>k. map_of (connections s') k =
         (if k = origin (heap s c) then Some (set_add c (connections_get s k))
          else map_of (connections s) k)) \<and>
      calls s' = calls s @ [SemAcquire (pool_timeout timeout)]) \<and>
   pool_timeout None = None \<and>
   pool_timeout (Some t) = (case t ''pool'' of None \<Rightarrow> None | Some v \<Rightarrow> v) \<and>
   (sem_acquire (pool_timeout timeout) (fst (connection_semaphore s)) = Some (Inr sem1) \<longrightarrow>
      (\<exists>s''. add_to_pool c timeout s = Some (Inr (), s'') \<and>
             internal_semaphore s'' = Some sem1 \<and>
             c \<in> set (connections_get s'' (origin (heap s c))) \<and>
             map_of (connections s'') (origin (heap s c)) =
               Some (set_add c (connections_get s (origin (heap s c)))))) \<and>
   (fst (connection_semaphore s) = NullSemaphore \<or>
    (\<exists>p. fst (connection_semaphore s) = Semaphore p \<and> 0 < p) \<longrightarrow>
      (\<exists>s''. add_to_pool c timeout s = Some (Inr (), s'') \<and>
             c \<in> set (connections_get s'' (origin (heap s c))))) \<and>
   (add_to_pool c timeout s = None \<longleftrightarrow>
      sem_acquire (pool_timeout timeout) (fst (connection_semaphore s)) = None)"
proof (intro conjI impI)
  assume a: "add_to_pool c timeout s = Some (Inl e, s')"
  note f = add_to_pool_Inl [OF a]
  show "e = PoolTimeout" by (rule f(1))
  show "connections s' = connections s" by (simp add: f(2))
  show "sem_acquire (pool_timeout timeout) (fst (connection_semaphore s)) = Some (Inl PoolTimeout)"
    by (rule f(3))
  show "calls s' = calls s @ [SemAcquire (pool_timeout timeout)]" by (simp add: f(2))
next
  assume "sem_acquire (pool_timeout timeout) (fst (connection_semaphore s)) = Some (Inl PoolTimeout)"
  then show "\<exists>s''. add_to_pool c timeout s = Some (Inl PoolTimeout, s'') \<and>
             connections s'' = connections s"
    by (simp add: add_to_pool_def split_beta Let_def)
next
  assume a: "add_to_pool c timeout s = Some (Inr u, s')"
  note f = add_to_pool_Inr [OF a]
  show "\<exists>sem'. sem_acquire (pool_timeout timeout) (fst (connection_semaphore s)) = Some (Inr sem') \<and>
              internal_semaphore s' = Some sem'" by (rule f(1))
  show "c \<in> set (connections_get s' (origin (heap s c)))"
    by (simp add: connections_get_def f(2))
  show "\<forall>k. map_of (connections s') k =
         (if k = origin (heap s c) then Some (set_add c (connections_get s k))
          else map_of (connections s) k)"
    by (simp add: f(2))
  show "calls s' = calls s @ [SemAcquire (pool_timeout timeout)]" by (rule f(3))
next
  show "pool_timeout None = None" by (simp add: pool_timeout_def)
  show "pool_timeout (Some t) = (case t ''pool'' of None \<Rightarrow> None | Some v \<Rightarrow> v)"
    by (simp add: pool_timeout_def)
next
  assume "sem_acquire (pool_timeout timeout) (fst (connection_semaphore s)) = Some (Inr sem1)"
  then show "\<exists>s''. add_to_pool c timeout s = Some (Inr (), s'') \<and>
             internal_semaphore s'' = Some sem1 \<and>
             c \<in> set (connections_get s'' (origin (heap s c))) \<and>
             map_of (connections s'') (origin (heap s c)) =
               Some (set_add c (connections_get s (origin (heap s c))))"
    by (rule add_to_pool_granted)
next
  assume "fst (connection_semaphore s) = NullSemaphore \<or>
    (\<exists>p. fst (connection_semaphore s) = Semaphore p \<and> 0 < p)"
  then obtain sem1 where
    "sem_acquire (pool_timeout timeout) (fst (connection_semaphore s)) = Some (Inr sem1)"
    by auto
  from add_to_pool_granted [OF this]
  show "\<exists>s''. add_to_pool c timeout s = Some (Inr (), s'') \<and>
             c \<in> set (connections_get s'' (origin (heap s c)))"
    by blast
next
  show "add_to_pool c timeout s = None \<longleftrightarrow>
      sem_acquire (pool_timeout timeout) (fst (connection_semaphore s)) = None"
    by (auto simp: add_to_pool_def split_beta Let_def split: option.splits sum.splits)
qed

theorem add_to_pool_admission_witness:
  "pool_timeout (Some timeout_50ms) = Some (Finite 3602879701896397 (- 56)) \<and>
   sem_acquire (pool_timeout (Some timeout_50ms)) (fst (connection_semaphore pool_full)) =
     Some (Inl PoolTimeout) \<and>
   add_to_pool 1 (Some timeout_50ms) pool_full =
     Some (Inl PoolTimeout,
           pool_full\<lparr>calls := [SemAcquire (Some (Finite 3602879701896397 (- 56)))]\<rparr>) \<and>
   connections (pool_full\<lparr>calls := [SemAcquire (Some (Finite 3602879701896397 (- 56)))]\<rparr>) =
     connections pool_full \<and>
   sem_acquire (pool_timeout None) (fst (connection_semaphore pool_new)) =
     Some (Inr (Semaphore 1)) \<and>
   add_to_pool 0 None pool_new = Some (Inr (), pool_added) \<and>
   0 \<in> set (connections_get pool_added (origin (heap pool_new 0))) \<and>
   sem_acquire (pool_timeout None) (fst (connection_semaphore pool_full)) = None \<and>
   add_to_pool 1 None pool_full = None"
proof -
  have t: "pool_timeout (Some timeout_50ms) = Some (Finite 3602879701896397 (- 56))"
    "pool_timeout None = None"
    by (simp_all add: pool_timeout_def timeout_50ms_def)
  have q: "sem_acquire (pool_timeout (Some timeout_50ms)) (fst (connection_semaphore pool_full)) =
     Some (Inl PoolTimeout)"
    "sem_acquire (pool_timeout None) (fst (connection_semaphore pool_new)) =
     Some (Inr (Semaphore 1))"
    "sem_acquire (pool_timeout None) (fst (connection_semaphore pool_full)) = None"
    by (simp_all add: t connection_semaphore_def pool_full_def pool_one_def pool_new_def
          init_def Let_def)
  have a: "add_to_pool 1 (Some timeout_50ms) pool_full =
     Some (Inl PoolTimeout,
           pool_full\<lparr>calls := [SemAcquire (Some (Finite 3602879701896397 (- 56)))]\<rparr>)"
    by (simp add: add_to_pool_def t connection_semaphore_def pool_full_def pool_one_def)
  have b: "add_to_pool 0 None pool_new = Some (Inr (), pool_added)"
    by (simp add: pool_added_def add_to_pool_pool_new)
  note th1 = add_to_pool_admission [of 1 "Some timeout_50ms" pool_full PoolTimeout
      "pool_full\<lparr>calls := [SemAcquire (Some (Finite 3602879701896397 (- 56)))]\<rparr>"]
  note th2 = add_to_pool_admission [of 0 None pool_new _ pool_added "()" _ "Semaphore 1"]
  note th3 = add_to_pool_admission [of 1 None pool_full]
  from th1 a have c: "connections (pool_full\<lparr>calls :=
       [SemAcquire (Some (Finite 3602879701896397 (- 56)))]\<rparr>) = connections pool_full"
    by blast
  from th2 b have d: "0 \<in> set (connections_get pool_added (origin (heap pool_new 0)))"
    by blast
  from th3 q(3) have e: "add_to_pool 1 None pool_full = None" by blast
  from t(1) q a b c d e show ?thesis by blast
qed

section \<open>Closing the response stream\<close>

lemma calls_response_closed:
  "\<exists>post. calls (response_closed now c s) = calls s @ post \<and> (\<forall>x. Callback x \<notin> set post)"
proof -
  have r: "\<And>s. \<exists>post. calls (remove_from_pool c s) = calls s @ post \<and>
                        (\<forall>x. Callback x \<notin> set post)"
  proof -
    fix s
    from calls_remove_from_pool [of c s]
    have "calls (remove_from_pool c s) = calls s @ [] \<or>
          calls (remove_from_pool c s) = calls s @ [SemRelease]" by simp
    then show "\<exists>post. calls (remove_from_pool c s) = calls s @ post \<and>
                        (\<forall>x. Callback x \<notin> set post)"
    proof
      assume "calls (remove_from_pool c s) = calls s @ []"
      then have "calls (remove_from_pool c s) = calls s @ [] \<and> (\<forall>x. Callback x \<notin> set [])"
        by simp
      then show ?thesis by (rule exI)
    next
      assume "calls (remove_from_pool c s) = calls s @ [SemRelease]"
      then have "calls (remove_from_pool c s) = calls s @ [SemRelease] \<and>
                 (\<forall>x. Callback x \<notin> set [SemRelease])"
        by simp
      then show ?thesis by (rule exI)
    qed
  qed
  have rc: "\<And>s. \<exists>post. calls (conn_aclose c (remove_from_pool c s)) = calls s @ post \<and>
                        (\<forall>x. Callback x \<notin> set post)"
  proof -
    fix s
    from r [of s] obtain post where "calls (remove_from_pool c s) = calls s @ post"
      "\<forall>x. Callback x \<notin> set post" by blast
    then have "calls (conn_aclose c (remove_from_pool c s)) = calls s @ (post @ [ConnAClose c]) \<and>
               (\<forall>x. Callback x \<notin> set (post @ [ConnAClose c]))"
      by (simp add: conn_aclose_def)
    then show "\<exists>post. calls (conn_aclose c (remove_from_pool c s)) = calls s @ post \<and>
                        (\<forall>x. Callback x \<notin> set post)" by blast
  qed
  show ?thesis
    using r [of s] rc [of s]
    by (auto simp: response_closed_def Let_def set_expires_at_def split: option.splits)
qed

lemma request_loop_last_call:
  "request_loop orig timeout rs s = Some (Inr (resp, c), s') \<Longrightarrow>
   \<exists>pre. calls s' = pre @ [ConnRequest c]"
proof (induction rs arbitrary: s)
  case Nil
  then show ?case by (auto split: option.splits sum.splits)
next
  case (Cons a rs)
  from Cons.prems obtain c1 s1 where g: "get_or_create orig timeout s = Some (Inr c1, s1)"
    by (auto split: option.splits sum.splits)
  show ?case
  proof (cases "attempt_request c1 a s1")
    case (Retry s2)
    with Cons.prems g have "request_loop orig timeout rs s2 = Some (Inr (resp, c), s')" by simp
    then show ?thesis by (rule Cons.IH)
  next
    case (Done resp' c' s2)
    with Cons.prems g have e: "resp' = resp" "c' = c" "s2 = s'" by simp_all
    from Done have "c' = c1 \<and> calls s2 = calls s1 @ [ConnRequest c1]"
      by (auto simp: attempt_request_def conn_request_def split: sum.splits if_splits)
    with e show ?thesis by blast
  next
    case (Failed e s2)
    with Cons.prems g show ?thesis by simp
  qed
qed

lemma request_returns_wrapper:
  assumes "request u now rs url timeout s = Some (Inr (a, b, c, d, w), s')"
  shows "callback w = response_closed_callback \<and> (\<exists>pre. calls s' = pre @ [ConnRequest (connection w)])"
proof -
  let ?s1 = "if keepalive_expiry s \<noteq> None then snd (keepalive_sweep now s) else s"
  from assms have sch: "\<not> fst url \<notin> {''http'', ''https''}"
    by (auto simp: request_def split: if_splits)
  with assms obtain body cn where
    l: "request_loop (u url) timeout rs ?s1 = Some (Inr ((a, b, c, d, body), cn), s')"
    and w: "w = \<lparr>stream = body, connection = cn, callback = response_closed_callback\<rparr>"
    by (auto simp: request_def Let_def split: option.splits sum.splits prod.splits)
  from request_loop_last_call [OF l] w show ?thesis by simp
qed

text \<open>
  C6: let \<open>w\<close> be a body stream returned by \<^verbatim>\<open>request\<close>; its connection is the one the
  request was made on. Closing \<open>w\<close>, in any state and at any time, closes the inner
  stream and then calls the pool's \<^verbatim>\<open>_response_closed\<close> on the connection of \<open>w\<close>, once:
  the state left is that of \<^verbatim>\<open>_response_closed\<close> run after the inner close, the log
  gains the inner close followed by one callback, and the caller gets the outcome of the
  inner close, so its error when it failed.
\<close>

theorem response_stream_close:
  assumes "request u now0 rs url timeout s0 = Some (Inr (a, b, c, d, w), s1)"
  shows "(\<exists>pre. calls s1 = pre @ [ConnRequest (connection w)]) \<and>
    fst (ResponseByteStream_aclose now w s) =
      (case close_error (stream w) of None \<Rightarrow> Inr () | Some e \<Rightarrow> Inl e) \<and>
    snd (ResponseByteStream_aclose now w s) =
      response_closed now (connection w)
        ((snd (stream_aclose (stream w) (connection w) s))
           \<lparr>calls := calls s @ [StreamAClose (connection w), Callback (connection w)]\<rparr>) \<and>
    count_list (calls (snd (ResponseByteStream_aclose now w s))) (Callback (connection w)) =
      Suc (count_list (calls s) (Callback (connection w))) \<and>
    (\<exists>post. calls (snd (ResponseByteStream_aclose now w s)) =
       calls s @ [StreamAClose (connection w), Callback (connection w)] @ post)"
proof -
  let ?c = "connection w"
  let ?s2 = "(snd (stream_aclose (stream w) ?c s))\<lparr>calls := calls s @ [StreamAClose ?c, Callback ?c]\<rparr>"
  from request_returns_wrapper [OF assms]
  have cb: "callback w = response_closed_callback"
    and pre: "\<exists>pre. calls s1 = pre @ [ConnRequest ?c]" by simp_all
  have r: "ResponseByteStream_aclose now w s =
      ((case close_error (stream w) of None \<Rightarrow> Inr () | Some e \<Rightarrow> Inl e),
       response_closed now ?c ?s2)"
    by (simp add: ResponseByteStream_aclose_def try_finally_def cb response_closed_callback_def
          stream_aclose_def)
  from calls_response_closed [of now ?c ?s2] obtain post where
    p: "calls (response_closed now ?c ?s2) = calls ?s2 @ post" "\<forall>x. Callback x \<notin> set post"
    by blast
  have c2: "calls ?s2 = calls s @ [StreamAClose ?c, Callback ?c]" by simp
  have "count_list (calls (response_closed now ?c ?s2)) (Callback ?c) =
      Suc (count_list (calls s) (Callback ?c))"
    unfolding p(1) c2 using p(2) by simp
  moreover have "\<exists>post. calls (response_closed now ?c ?s2) =
       calls s @ [StreamAClose ?c, Callback ?c] @ post"
    unfolding p(1) c2 by simp
  ultimately show ?thesis using pre unfolding r by simp
qed

lemma request_pool_new:
  "request url_origin (Finite 0 0) [reply_ok] url_x None pool_new =
     Some (Inr (''HTTP/1.1'', 200, ''OK'', [], wrapped_body), pool_requested)"
  unfolding pool_requested_def
  by (simp add: request_def url_x_def url_origin_def pool_new_def init_def keepalive_sweep_def
        get_all_connections_def get_or_create_def get_connection_from_pool_def
        connections_for_origin_def connections_get_def scan0_def new_connection_def
        add_to_pool_def connection_semaphore_def pool_timeout_def set_add_def
        attempt_request_def conn_request_def reply_ok_def wrapped_body_def origin_x_def
        Let_def)

theorem response_stream_close_witness:
  "request url_origin (Finite 0 0) [reply_ok] url_x None pool_new =
     Some (Inr (''HTTP/1.1'', 200, ''OK'', [], wrapped_body), pool_requested) \<and>
   fst (ResponseByteStream_aclose (Finite 3 0) wrapped_body pool_requested) = Inl (OtherException ''reset'') \<and>
   count_list (calls (snd (ResponseByteStream_aclose (Finite 3 0) wrapped_body pool_requested))) (Callback 1) =
     Suc (count_list (calls pool_requested) (Callback 1))"
proof -
  from response_stream_close [OF request_pool_new, of "Finite 3 0" pool_requested]
  have "fst (ResponseByteStream_aclose (Finite 3 0) wrapped_body pool_requested) =
      (case close_error (stream wrapped_body) of None \<Rightarrow> Inr () | Some e \<Rightarrow> Inl e)"
    "count_list (calls (snd (ResponseByteStream_aclose (Finite 3 0) wrapped_body pool_requested)))
       (Callback (connection wrapped_body)) =
     Suc (count_list (calls pool_requested) (Callback (connection wrapped_body)))"
    by blast+
  moreover have "close_error (stream wrapped_body) = Some (OtherException ''reset'')"
    "connection wrapped_body = 1"
    by (simp_all add: wrapped_body_def body_failing_def)
  ultimately show ?thesis using request_pool_new by simp
qed

section \<open>Errors of the request\<close>

lemma get_or_create_error:
  "get_or_create orig timeout s = Some (Inl e, s') \<Longrightarrow> e = PoolTimeout"
  by (auto simp: get_or_create_def split_beta Let_def dest: add_to_pool_Inl(1)
        split: option.splits sum.splits)

lemma attempt_request_Failed:
  "attempt_request c r s = Failed e s' \<Longrightarrow> e \<noteq> NewConnectionRequired"
  by (auto simp: attempt_request_def split_beta split: sum.splits if_splits)

lemma request_loop_error:
  "request_loop orig timeout rs s = Some (Inl e, s') \<Longrightarrow> e \<noteq> NewConnectionRequired"
proof (induction rs arbitrary: s)
  case Nil
  then show ?case
    by (auto split: option.splits sum.splits dest: get_or_create_error)
next
  case (Cons a rs)
  from Cons.prems obtain r1 s1 where g: "get_or_create orig timeout s = Some (r1, s1)"
    by (auto split: option.splits)
  show ?case
  proof (cases r1)
    case (Inl e1)
    with Cons.prems g get_or_create_error [of orig timeout s e1 s1] show ?thesis by auto
  next
    case (Inr c)
    show ?thesis
    proof (cases "attempt_request c a s1")
      case (Retry s2)
      with Cons.prems g Inr have "request_loop orig timeout rs s2 = Some (Inl e, s')" by simp
      then show ?thesis by (rule Cons.IH)
    next
      case (Done resp c' s2)
      with Cons.prems g Inr show ?thesis by simp
    next
      case (Failed e2 s2)
      with Cons.prems g Inr attempt_request_Failed [of c a s1 e2 s2] show ?thesis by auto
    qed
  qed
qed

lemma request_error:
  "request u now rs url timeout s = Some (Inl e, s') \<Longrightarrow> e \<noteq> NewConnectionRequired"
  by (auto simp: request_def Let_def dest: request_loop_error
        split: if_splits option.splits sum.splits prod.splits)

lemma conn_request_fields [simp]:
  "connections (snd (conn_request c r s)) = connections s"
  "origin (heap (snd (conn_request c r s)) x) = origin (heap s x)"
  "fst (conn_request c r s) = outcome r"
  by (simp_all add: conn_request_def)

lemma remove_after_request:
  "c \<notin> set (connections_get (remove_from_pool c (snd (conn_request c r s))) (origin (heap s c)))"
  using connections_get_after_remove [of c "snd (conn_request c r s)"] by simp

lemma request_removes:
  assumes "reachable s1"
    and "get_or_create orig timeout
           (if keepalive_expiry s1 \<noteq> None then snd (keepalive_sweep now s1) else s1) =
         Some (Inr c, s)"
  shows "c \<notin> set (get_all_connections (remove_from_pool c (snd (conn_request c r s))))"
proof -
  let ?s0 = "if keepalive_expiry s1 \<noteq> None then snd (keepalive_sweep now s1) else s1"
  have "pool_inv ?s0"
    using reachable_pool_inv [OF assms(1)] pool_inv_keepalive_sweep by simp
  from pool_inv_get_or_create [OF this assms(2)] have "pool_inv s" by simp
  then have "pool_inv (snd (conn_request c r s))" by (rule pool_inv_conn_request)
  from pooled_remove_from_pool [OF this, of c] show ?thesis by (simp add: pooled_def)
qed

lemma pool_selected_eq:
  "pool_selected =
     pool_idle\<lparr>heap := blank_heap(0 := blank\<lparr>state := READY, is_http11 := True\<rparr>),
               calls := [SemAcquire None, MarkAsReady 0]\<rparr>"
  unfolding pool_selected_def
  by (simp add: get_connection_from_pool_def connections_for_origin_def connections_get_def
        pool_idle_eq scan0_def scan_step_def blank_def Let_def mark_as_ready_def
        set_expires_at_def)

lemma get_or_create_pool_idle:
  "get_or_create origin_x None pool_idle = Some (Inr 0, pool_selected)"
  unfolding pool_selected_def
  by (simp add: get_or_create_def get_connection_from_pool_def connections_for_origin_def
        connections_get_def pool_idle_eq scan0_def scan_step_def blank_def Let_def)

lemma sweep_pool_idle_0:
  "(if keepalive_expiry pool_idle \<noteq> None then snd (keepalive_sweep (Finite 0 0) pool_idle)
    else pool_idle) = pool_idle\<lparr>next_keepalive_check := Finite 1 0\<rparr>"
  by (simp add: pool_idle_eq keepalive_sweep_def get_all_connections_def sweep_step_def
        expired_def blank_def fadd_0_1 Let_def del: fadd.simps)

lemma request_pool_idle_setup:
  "get_or_create (url_origin url_x) None
     (if keepalive_expiry pool_idle \<noteq> None then snd (keepalive_sweep (Finite 0 0) pool_idle)
      else pool_idle) =
   Some (Inr 0, pool_selected\<lparr>next_keepalive_check := Finite 1 0\<rparr>)"
  unfolding sweep_pool_idle_0 pool_selected_def
  by (simp add: get_or_create_def get_connection_from_pool_def connections_for_origin_def
        connections_get_def pool_idle_eq scan0_def scan_step_def blank_def Let_def
        url_origin_def url_x_def origin_x_def mark_as_ready_def set_expires_at_def)

text \<open>
  C3, as stated, fails for an error that is no \<^verbatim>\<open>Exception\<close>: the clause
  \<^verbatim>\<open>except Exception\<close> does not catch it. Here \<^verbatim>\<open>connection.request\<close> fails with
  \<^verbatim>\<open>asyncio.CancelledError\<close> on the connection \<open>0\<close> selected from the pool; \<^verbatim>\<open>request\<close>
  fails with that error, and the connection is still in the pool.
\<close>

theorem request_error_handling_counterexample:
  "reachable pool_idle \<and>
   get_or_create (url_origin url_x) None
     (if keepalive_expiry pool_idle \<noteq> None then snd (keepalive_sweep (Finite 0 0) pool_idle)
      else pool_idle) =
     Some (Inr 0, pool_selected\<lparr>next_keepalive_check := Finite 1 0\<rparr>) \<and>
   outcome reply_cancelled = Inl (OtherBaseException ''CancelledError'') \<and>
   OtherBaseException ''CancelledError'' \<noteq> NewConnectionRequired \<and>
   request url_origin (Finite 0 0) [reply_cancelled] url_x None pool_idle =
     Some (Inl (OtherBaseException ''CancelledError''),
           snd (conn_request 0 reply_cancelled (pool_selected\<lparr>next_keepalive_check := Finite 1 0\<rparr>))) \<and>
   0 \<in> set (get_all_connections
     (snd (conn_request 0 reply_cancelled (pool_selected\<lparr>next_keepalive_check := Finite 1 0\<rparr>))))"
proof -
  have a: "outcome reply_cancelled = Inl (OtherBaseException ''CancelledError'')"
    by (simp add: reply_cancelled_def)
  have b: "attempt_request 0 reply_cancelled (pool_selected\<lparr>next_keepalive_check := Finite 1 0\<rparr>) =
      Failed (OtherBaseException ''CancelledError'')
        (snd (conn_request 0 reply_cancelled (pool_selected\<lparr>next_keepalive_check := Finite 1 0\<rparr>)))"
    by (simp add: attempt_request_def conn_request_def a)
  have c: "request url_origin (Finite 0 0) [reply_cancelled] url_x None pool_idle =
     Some (Inl (OtherBaseException ''CancelledError''),
           snd (conn_request 0 reply_cancelled (pool_selected\<lparr>next_keepalive_check := Finite 1 0\<rparr>)))"
    using request_pool_idle_setup b
    by (simp add: request_def Let_def url_x_def)
  have d: "0 \<in> set (get_all_connections
     (snd (conn_request 0 reply_cancelled (pool_selected\<lparr>next_keepalive_check := Finite 1 0\<rparr>))))"
    by (simp add: get_all_connections_def pool_selected_eq pool_idle_eq)
  from reachable_pool_idle request_pool_idle_setup a c d show ?thesis by simp
qed

text \<open>
  C3, amended: when \<^verbatim>\<open>connection.request\<close> fails with \<open>NewConnectionRequired\<close>, the error
  is caught, the connections dictionary is as it was before the call, and the loop goes
  round again, selecting anew; \<^verbatim>\<open>request\<close> never fails with \<open>NewConnectionRequired\<close>.
  When \<^verbatim>\<open>connection.request\<close> fails with another error that is an \<^verbatim>\<open>Exception\<close>, the
  connection is removed by \<^verbatim>\<open>_remove_from_pool\<close>, so that it is no longer in the set of
  its origin nor anywhere in the pool, and \<^verbatim>\<open>request\<close> fails with that same error.
\<close>

theorem request_error_handling:
  "(outcome r = Inl NewConnectionRequired \<longrightarrow>
      attempt_request c r s = Retry (snd (conn_request c r s)) \<and>
      connections (snd (conn_request c r s)) = connections s \<and>
      (get_or_create orig timeout s0 = Some (Inr c, s) \<longrightarrow>
         request_loop orig timeout (r # rs) s0 =
           request_loop orig timeout rs (snd (conn_request c r s)))) \<and>
   (outcome r = Inl e \<and> e \<noteq> NewConnectionRequired \<and> is_exception e \<longrightarrow>
      attempt_request c r s = Failed e (remove_from_pool c (snd (conn_request c r s))) \<and>
      c \<notin> set (connections_get (remove_from_pool c (snd (conn_request c r s)))
                 (origin (heap s c))) \<and>
      (get_or_create orig timeout s0 = Some (Inr c, s) \<longrightarrow>
         request_loop orig timeout (r # rs) s0 =
           Some (Inl e, remove_from_pool c (snd (conn_request c r s)))) \<and>
      (get_or_create (u url) timeout
           (if keepalive_expiry s1 \<noteq> None then snd (keepalive_sweep now s1) else s1) =
         Some (Inr c, s) \<and> fst url \<in> {''http'', ''https''} \<longrightarrow>
         request u now (r # rs) url timeout s1 =
           Some (Inl e, remove_from_pool c (snd (conn_request c r s))) \<and>
         (reachable s1 \<longrightarrow>
            c \<notin> set (get_all_connections (remove_from_pool c (snd (conn_request c r s))))))) \<and>
   request_loop orig timeout rs s0 \<noteq> Some (Inl NewConnectionRequired, s2) \<and>
   request u now rs url timeout s1 \<noteq> Some (Inl NewConnectionRequired, s2)"
proof (intro conjI impI; (elim conjE)?)
  assume a: "outcome r = Inl NewConnectionRequired"
  then show r: "attempt_request c r s = Retry (snd (conn_request c r s))"
    by (simp add: attempt_request_def conn_request_def)
  show "connections (snd (conn_request c r s)) = connections s"
    by simp
  assume "get_or_create orig timeout s0 = Some (Inr c, s)"
  with r show "request_loop orig timeout (r # rs) s0 =
           request_loop orig timeout rs (snd (conn_request c r s))" by simp
next
  assume a: "outcome r = Inl e" "e \<noteq> NewConnectionRequired" "is_exception e"
  then show f: "attempt_request c r s = Failed e (remove_from_pool c (snd (conn_request c r s)))"
    by (simp add: attempt_request_def conn_request_def)
  show "c \<notin> set (connections_get (remove_from_pool c (snd (conn_request c r s)))
                 (origin (heap s c)))"
    by (rule remove_after_request)
  {
    assume "get_or_create orig timeout s0 = Some (Inr c, s)"
    with f show "request_loop orig timeout (r # rs) s0 =
           Some (Inl e, remove_from_pool c (snd (conn_request c r s)))" by simp
  }
  assume g: "get_or_create (u url) timeout
           (if keepalive_expiry s1 \<noteq> None then snd (keepalive_sweep now s1) else s1) =
         Some (Inr c, s)" "fst url \<in> {''http'', ''https''}"
  with f show "request u now (r # rs) url timeout s1 =
           Some (Inl e, remove_from_pool c (snd (conn_request c r s)))"
    by (simp add: request_def Let_def)
  assume "reachable s1"
  from request_removes [OF this g(1)]
  show "c \<notin> set (get_all_connections (remove_from_pool c (snd (conn_request c r s))))" .
next
  show "request_loop orig timeout rs s0 \<noteq> Some (Inl NewConnectionRequired, s2)"
    using request_loop_error by blast
  show "request u now rs url timeout s1 \<noteq> Some (Inl NewConnectionRequired, s2)"
    using request_error by blast
qed

theorem request_error_handling_witness:
  "outcome reply_retry = Inl NewConnectionRequired \<and>
   get_or_create origin_x None pool_idle = Some (Inr 0, pool_selected) \<and>
   attempt_request 0 reply_retry pool_selected = Retry (snd (conn_request 0 reply_retry pool_selected)) \<and>
   request_loop origin_x None [reply_retry, reply_ok] pool_idle =
     request_loop origin_x None [reply_ok] (snd (conn_request 0 reply_retry pool_selected)) \<and>
   outcome reply_broken = Inl (OtherException ''reset'') \<and>
   OtherException ''reset'' \<noteq> NewConnectionRequired \<and>
   is_exception (OtherException ''reset'') \<and>
   request_loop origin_x None [reply_broken] pool_idle =
     Some (Inl (OtherException ''reset''),
           remove_from_pool 0 (snd (conn_request 0 reply_broken pool_selected))) \<and>
   fst url_x \<in> {''http'', ''https''} \<and>
   reachable pool_idle \<and>
   0 \<in> set (get_all_connections pool_idle) \<and>
   request url_origin (Finite 0 0) [reply_broken] url_x None pool_idle =
     Some (Inl (OtherException ''reset''),
           remove_from_pool 0
             (snd (conn_request 0 reply_broken
                    (pool_selected\<lparr>next_keepalive_check := Finite 1 0\<rparr>)))) \<and>
   0 \<notin> set (get_all_connections
     (remove_from_pool 0
        (snd (conn_request 0 reply_broken (pool_selected\<lparr>next_keepalive_check := Finite 1 0\<rparr>)))))"
proof -
  have a: "outcome reply_retry = Inl NewConnectionRequired"
    "outcome reply_broken = Inl (OtherException ''reset'')"
    "OtherException ''reset'' \<noteq> NewConnectionRequired"
    "fst url_x \<in> {''http'', ''https''}"
    "is_exception (OtherException ''reset'')"
    "0 \<in> set (get_all_connections pool_idle)"
    by (simp_all add: reply_retry_def reply_broken_def url_x_def pool_idle_fields)
  from request_error_handling [of reply_retry 0 pool_selected origin_x None pool_idle "[reply_ok]"]
    a(1) get_or_create_pool_idle
  have b: "attempt_request 0 reply_retry pool_selected =
             Retry (snd (conn_request 0 reply_retry pool_selected))"
    "request_loop origin_x None [reply_retry, reply_ok] pool_idle =
     request_loop origin_x None [reply_ok] (snd (conn_request 0 reply_retry pool_selected))"
    by simp_all
  from request_error_handling [of reply_broken 0 pool_selected origin_x None pool_idle "[]"
      "OtherException ''reset''"] a(2,3,5) get_or_create_pool_idle
  have c: "request_loop origin_x None [reply_broken] pool_idle =
     Some (Inl (OtherException ''reset''),
           remove_from_pool 0 (snd (conn_request 0 reply_broken pool_selected)))"
    by simp
  from request_error_handling [of reply_broken 0 "pool_selected\<lparr>next_keepalive_check := Finite 1 0\<rparr>"
      origin_x None pool_idle "[]" "OtherException ''reset''" url_origin url_x pool_idle "Finite 0 0"]
    a(2,3,4,5) request_pool_idle_setup reachable_pool_idle
  have d: "request url_origin (Finite 0 0) [reply_broken] url_x None pool_idle =
     Some (Inl (OtherException ''reset''),
           remove_from_pool 0
             (snd (conn_request 0 reply_broken
                    (pool_selected\<lparr>next_keepalive_check := Finite 1 0\<rparr>))))"
    "0 \<notin> set (get_all_connections
     (remove_from_pool 0
        (snd (conn_request 0 reply_broken (pool_selected\<lparr>next_keepalive_check := Finite 1 0\<rparr>)))))"
    by simp_all
  from a b c d get_or_create_pool_idle reachable_pool_idle show ?thesis by simp
qed

section \<open>Eviction is idempotent\<close>

text \<open>
  C8: removing a connection twice leaves the same state (connections, semaphore and all
  other fields) as removing it once; removing a connection that is not in the set of its
  origin changes nothing, so no permit is released.
\<close>

theorem remove_from_pool_idempotent:
  "remove_from_pool c (remove_from_pool c s) = remove_from_pool c s \<and>
   (c \<notin> set (connections_get s (origin (heap s c))) \<longrightarrow> remove_from_pool c s = s)"
proof
  have "c \<notin> set (connections_get (remove_from_pool c s) (origin (heap (remove_from_pool c s) c)))"
    using connections_get_after_remove [of c s] by simp
  then show "remove_from_pool c (remove_from_pool c s) = remove_from_pool c s"
    by (simp add: remove_from_pool_def [of c "remove_from_pool c s"])
  show "c \<notin> set (connections_get s (origin (heap s c))) \<longrightarrow> remove_from_pool c s = s"
    by (simp add: remove_from_pool_def)
qed

theorem remove_from_pool_idempotent_witness:
  "1 \<notin> set (connections_get pool_one (origin (heap pool_one 1))) \<and>
   remove_from_pool 1 pool_one = pool_one \<and>
   remove_from_pool 0 (remove_from_pool 0 pool_one) = remove_from_pool 0 pool_one"
proof -
  have "1 \<notin> set (connections_get pool_one (origin (heap pool_one 1)))"
    by (simp add: pool_one_def connections_get_def blank_def origin_x_def)
  then show ?thesis
    using remove_from_pool_idempotent [of 1 pool_one] remove_from_pool_idempotent [of 0 pool_one]
    by simp
qed

end
